theory Spec2Isabelle
  imports Main "HOL-Library.Word"
begin

unbundle bit_operations_syntax

section \<open>Tag model (types.ts)\<close>

text \<open>
  The numeric enum \<open>TagType\<close>. The decoder casts an arbitrary byte to \<open>TagType\<close>
  without a check, so a last constructor carries the byte values 13 to 255 that the
  enum does not list. The members are written with a leading \<open>T\<close>, since \<open>Int\<close> is
  already the ASCII form of set intersection.
\<close>

datatype TagType =
    TEnd | TByte | TShort | TInt | TLong | TFloat | TDouble | TByteArray
  | TString | TList | TCompound | TIntArray | TLongArray
  | TUnlisted nat

text \<open>
  The field \<open>value: any\<close> of a tag. Only the shapes the program creates are modelled:
  \<^item> \<open>VNumber n\<close>: a JavaScript number holding the integer \<open>n\<close>;
  \<^item> \<open>VDouble w\<close>: a JavaScript number given by its IEEE-754 binary64 pattern, the payload
    of a Float or Double tag read from a buffer;
  \<^item> \<open>VBigInt n\<close>: a bigint;
  \<^item> \<open>VNumbers\<close>, \<open>VBigInts\<close>, \<open>VTags\<close>: arrays of numbers, of bigints and of tags
    (the empty array literal \<open>[]\<close> of the source is \<open>VTags []\<close>);
  \<^item> \<open>VList itemType list\<close>: the object \<open>{itemType, list}\<close> of a List tag.
\<close>

datatype 'a nbt_value =
    VNull | VUndefined
  | VNumber int | VDouble "64 word" | VBigInt int | VString string
  | VNumbers "int list" | VBigInts "int list"
  | VTags "'a list"
  | VList TagType "'a list"

datatype NBTTag = NBTTag (tag_type: TagType) (tag_name: "string option") (tag_value: "NBTTag nbt_value")

text \<open>
  What JavaScript raises, as values. \<open>Unmodelled\<close> marks a value whose shape is not the
  shape of its kind and on which the source neither raises at once nor stays within the
  shapes above (it coerces, or builds a mixed array).
\<close>

datatype error = RangeError | TypeError | InvalidGzip | Unmodelled

type_synonym byte = "8 word"

section \<open>Tree utilities (utils/treeUtils.ts)\<close>

text \<open>\<open>xs.map(f)\<close> where \<open>f\<close> may raise: the first failing element, left to right, decides.\<close>

primrec mapE :: "('a \<Rightarrow> error + 'b) \<Rightarrow> 'a list \<Rightarrow> error + 'b list" where
  "mapE f [] = Inr []"
| "mapE f (x # xs) =
     (case f x of
        Inl e \<Rightarrow> Inl e
      | Inr y \<Rightarrow> (case mapE f xs of Inl e \<Rightarrow> Inl e | Inr ys \<Rightarrow> Inr (y # ys)))"

lemma mapE_cong [fundef_cong]:
  "xs = ys \<Longrightarrow> (\<And>x. x \<in> set ys \<Longrightarrow> f x = g x) \<Longrightarrow> mapE f xs = mapE g ys"
  by (induction ys arbitrary: xs) (auto split: sum.splits)

text \<open>The pairs \<open>(child, idx)\<close> that \<open>map\<close> and \<open>forEach\<close> hand to a two-argument callback.\<close>

definition indexed :: "'a list \<Rightarrow> ('a \<times> nat) list" where
  "indexed xs = zip xs [0 ..< length xs]"

lemma indexed_fst: "(a, i) \<in> set (indexed xs) \<Longrightarrow> a \<in> set xs"
  unfolding indexed_def by (rule set_zip_leftD)

lemma indexed_size [termination_simp]:
  "(a, i) \<in> set (indexed xs) \<Longrightarrow> size a < Suc (size_list size xs)"
  using indexed_fst [of a i xs] by (auto simp: less_Suc_eq_le intro: size_list_estimation')

text \<open>Template literals: \<open>${child.name}\<close> prints \<open>null\<close> for a missing name, \<open>${idx}\<close> prints decimal digits.\<close>

definition name_text :: "string option \<Rightarrow> string" where
  "name_text nm = (case nm of None \<Rightarrow> ''null'' | Some s \<Rightarrow> s)"

fun digits :: "nat \<Rightarrow> string" where
  "digits n =
     (if n < 10 then [''0123456789'' ! n]
      else digits (n div 10) @ [''0123456789'' ! (n mod 10)])"

declare digits.simps [simp del]

definition child_path :: "string \<Rightarrow> NBTTag \<Rightarrow> string" where
  "child_path parentPath child = parentPath @ ''.'' @ name_text (tag_name child)"

definition index_path :: "string \<Rightarrow> nat \<Rightarrow> string" where
  "index_path parentPath idx = parentPath @ ''['' @ digits idx @ '']''"

text \<open>\<open>cloneTag\<close>: the deep copy pushed on the history stacks.\<close>

fun cloneTag :: "NBTTag \<Rightarrow> NBTTag" where
  "cloneTag (NBTTag ty nm v) =
     (case v of
        VTags cs \<Rightarrow>
          if ty = TCompound then NBTTag ty nm (VTags (map cloneTag cs))
          else NBTTag ty nm (VTags cs)
      | VNumbers xs \<Rightarrow> NBTTag ty nm (VNumbers xs)
      | VBigInts xs \<Rightarrow> NBTTag ty nm (VBigInts xs)
      | VList itemType items \<Rightarrow>
          if ty = TList then NBTTag ty nm (VList itemType (map cloneTag items))
          else NBTTag ty nm v
      | _ \<Rightarrow> NBTTag ty nm v)"

text \<open>
  \<open>flattenTree\<close>: the paths in visual order. A Compound whose value has no \<open>forEach\<close>,
  and a List whose value has no \<open>list\<close>, raise TypeError.
\<close>

fun flattenTree :: "NBTTag \<Rightarrow> string \<Rightarrow> error + string list" where
  "flattenTree (NBTTag ty nm v) parentPath =
     (if ty = TCompound then
        (case v of
           VTags cs \<Rightarrow>
             (case mapE (\<lambda>child. flattenTree child (child_path parentPath child)) cs of
                Inl e \<Rightarrow> Inl e
              | Inr pss \<Rightarrow> Inr (parentPath # concat pss))
         | VNumbers xs \<Rightarrow> Inl Unmodelled
         | VBigInts xs \<Rightarrow> Inl Unmodelled
         | _ \<Rightarrow> Inl TypeError)
      else if ty = TList then
        (case v of
           VList itemType items \<Rightarrow>
             (case mapE (\<lambda>(child, idx). flattenTree child (index_path parentPath idx)) (indexed items) of
                Inl e \<Rightarrow> Inl e
              | Inr pss \<Rightarrow> Inr (parentPath # concat pss))
         | _ \<Rightarrow> Inl TypeError)
      else Inr [parentPath])"

text \<open>\<open>.filter(child => child !== null)\<close> on the results of \<open>recursiveDelete\<close>.\<close>

primrec not_null :: "'a option list \<Rightarrow> 'a list" where
  "not_null [] = []"
| "not_null (r # rs) = (case r of None \<Rightarrow> not_null rs | Some x \<Rightarrow> x # not_null rs)"

text \<open>
  \<open>recursiveDelete\<close>, the inner function of \<open>deleteNodesByPaths\<close>: \<open>None\<close> is the
  \<open>null\<close> that signals a deleted node.
\<close>

fun recursiveDelete :: "string set \<Rightarrow> NBTTag \<Rightarrow> string \<Rightarrow> error + NBTTag option" where
  "recursiveDelete pathsToDelete (NBTTag ty nm v) currentPath =
     (if currentPath \<in> pathsToDelete then Inr None
      else if ty = TCompound then
        (case v of
           VTags cs \<Rightarrow>
             (case mapE (\<lambda>child. recursiveDelete pathsToDelete child (child_path currentPath child)) cs of
                Inl e \<Rightarrow> Inl e
              | Inr rs \<Rightarrow> Inr (Some (NBTTag ty nm (VTags (not_null rs)))))
         | VNumbers xs \<Rightarrow> Inl Unmodelled
         | VBigInts xs \<Rightarrow> Inl Unmodelled
         | _ \<Rightarrow> Inl TypeError)
      else if ty = TList then
        (case v of
           VList itemType items \<Rightarrow>
             (case mapE (\<lambda>(child, idx). recursiveDelete pathsToDelete child (index_path currentPath idx))
                     (indexed items) of
                Inl e \<Rightarrow> Inl e
              | Inr rs \<Rightarrow> Inr (Some (NBTTag ty nm (VList itemType (not_null rs)))))
         | _ \<Rightarrow> Inl TypeError)
      else Inr (Some (NBTTag ty nm v)))"

definition deleteNodesByPaths :: "NBTTag \<Rightarrow> string set \<Rightarrow> error + NBTTag" where
  "deleteNodesByPaths root pathsToDelete =
     (case recursiveDelete pathsToDelete (cloneTag root) ''root'' of
        Inl e \<Rightarrow> Inl e
      | Inr None \<Rightarrow> Inr (NBTTag (tag_type root) (tag_name root) (VTags []))
      | Inr (Some result) \<Rightarrow> Inr result)"

text \<open>A tag whose containers have the shape of their kind, at every depth.\<close>

fun shaped :: "NBTTag \<Rightarrow> bool" where
  "shaped (NBTTag ty nm v) =
     (if ty = TCompound then (case v of VTags cs \<Rightarrow> list_all shaped cs | _ \<Rightarrow> False)
      else if ty = TList then (case v of VList itemType items \<Rightarrow> list_all shaped items | _ \<Rightarrow> False)
      else True)"

text \<open>
  The bulk delete in the words of the specification, for a node that is itself kept: a
  child whose current path is in the set is dropped whole, the other children are
  collected in their order, each pruned in turn.
\<close>

fun pruned :: "string set \<Rightarrow> NBTTag \<Rightarrow> string \<Rightarrow> NBTTag" where
  "pruned S (NBTTag ty nm v) p =
     (if ty = TCompound then
        (case v of
           VTags cs \<Rightarrow>
             NBTTag ty nm (VTags (map (\<lambda>c. pruned S c (child_path p c))
                                      (filter (\<lambda>c. child_path p c \<notin> S) cs)))
         | _ \<Rightarrow> NBTTag ty nm v)
      else if ty = TList then
        (case v of
           VList itemType items \<Rightarrow>
             NBTTag ty nm (VList itemType (map (\<lambda>(c, i). pruned S c (index_path p i))
                                      (filter (\<lambda>(c, i). index_path p i \<notin> S) (indexed items))))
         | _ \<Rightarrow> NBTTag ty nm v)
      else NBTTag ty nm v)"

text \<open>
  The children of a container, each with the path that \<open>flattenTree\<close> and
  \<open>recursiveDelete\<close> hand down with it: \<open>${parentPath}.${child.name}\<close> in a Compound,
  \<open>${parentPath}[${idx}]\<close> in a List.
\<close>

fun kids :: "NBTTag \<Rightarrow> string \<Rightarrow> (NBTTag \<times> string) list" where
  "kids (NBTTag ty nm v) p =
     (if ty = TCompound then
        (case v of VTags cs \<Rightarrow> map (\<lambda>c. (c, child_path p c)) cs | _ \<Rightarrow> [])
      else if ty = TList then
        (case v of
           VList itemType items \<Rightarrow> map (\<lambda>(c, i). (c, index_path p i)) (indexed items)
         | _ \<Rightarrow> [])
      else [])"

text \<open>
  The node reached from a tag by a sequence of child positions, with its path; \<open>None\<close>
  when a position is out of range.
\<close>

fun node_at :: "NBTTag \<Rightarrow> string \<Rightarrow> nat list \<Rightarrow> (NBTTag \<times> string) option" where
  "node_at t p [] = Some (t, p)"
| "node_at t p (k # ks) =
     (if k < length (kids t p) then node_at (fst (kids t p ! k)) (snd (kids t p ! k)) ks
      else None)"

text \<open>
  Where a node is found after a bulk delete: \<open>None\<close> when the path of the node or of one
  of the containers above it is in the set (the node goes with the deleted subtree);
  otherwise each position drops by the number of earlier siblings whose path is in the set.
\<close>

fun place_after :: "string set \<Rightarrow> NBTTag \<Rightarrow> string \<Rightarrow> nat list \<Rightarrow> nat list option" where
  "place_after S t p [] = (if p \<in> S then None else Some [])"
| "place_after S t p (k # ks) =
     (if p \<in> S \<or> \<not> k < length (kids t p) then None
      else map_option (\<lambda>ks'. length (filter (\<lambda>(c, q). q \<notin> S) (take k (kids t p))) # ks')
             (place_after S (fst (kids t p ! k)) (snd (kids t p ! k)) ks))"

section \<open>Add child (components/NBTNode.tsx)\<close>

text \<open>
  \<open>handleAddChild\<close> of the node showing \<open>tag\<close>. The result is the tag handed to
  \<open>onUpdate\<close>, \<open>None\<close> when \<open>onUpdate\<close> is not called. Spreading a value that is
  not iterable raises TypeError.
\<close>

definition handleAddChild :: "TagType \<Rightarrow> NBTTag \<Rightarrow> error + NBTTag option" where
  "handleAddChild parentType tag =
     (if tag_type tag = TCompound then
        (let newTag = NBTTag TString (Some ''new_tag'') (VString ''value'') in
         case tag_value tag of
           VTags cs \<Rightarrow> Inr (Some (NBTTag (tag_type tag) (tag_name tag) (VTags (cs @ [newTag]))))
         | VString s \<Rightarrow> Inl Unmodelled
         | VNumbers xs \<Rightarrow> Inl Unmodelled
         | VBigInts xs \<Rightarrow> Inl Unmodelled
         | _ \<Rightarrow> Inl TypeError)
      else if tag_type tag = TList then
        (case tag_value tag of
           VList itemType items \<Rightarrow>
             (let d0 = VNumber 0;
                  d1 = (if itemType = TString then VString [] else d0);
                  defaultValue = (if itemType = TCompound then VTags [] else d1);
                  newTag = NBTTag itemType None defaultValue;
                  newList = items @ [newTag]
              in Inr (Some (NBTTag (tag_type tag) (tag_name tag) (VList itemType newList))))
         | _ \<Rightarrow> Inl TypeError)
      else Inr None)"

section \<open>History (App.tsx)\<close>

record NBTFile =
  file_id :: string
  filename :: string
  root :: NBTTag
  isCompressed :: bool
  isModified :: bool
  undoStack :: "NBTTag list"
  redoStack :: "NBTTag list"

text \<open>The state of the \<open>App\<close> component that the history and the bulk delete use.\<close>

record App =
  files :: "NBTFile list"
  activeFileId :: "string option"
  selectedPaths :: "string set"

text \<open>\<open>xs.slice(start)\<close> and \<open>xs.slice(0, end)\<close>: a negative argument counts from the end.\<close>

definition slice_index :: "int \<Rightarrow> 'a list \<Rightarrow> nat" where
  "slice_index k xs =
     (let len = int (length xs) in nat (if k < 0 then max (len + k) 0 else min k len))"

definition slice_from :: "int \<Rightarrow> 'a list \<Rightarrow> 'a list" where
  "slice_from start xs = drop (slice_index start xs) xs"

definition slice_upto :: "int \<Rightarrow> 'a list \<Rightarrow> 'a list" where
  "slice_upto end xs = take (slice_index end xs) xs"

text \<open>\<open>files.find(f => f.id === activeFileId)\<close>.\<close>

definition activeFile :: "App \<Rightarrow> NBTFile option" where
  "activeFile app =
     (case activeFileId app of
        None \<Rightarrow> None
      | Some i \<Rightarrow> find (\<lambda>f. file_id f = i) (files app))"

definition pushHistory :: "string \<Rightarrow> NBTTag \<Rightarrow> App \<Rightarrow> App" where
  "pushHistory fileId newRoot app =
     app\<lparr>files := map (\<lambda>f.
        if file_id f \<noteq> fileId then f
        else (let newUndo = slice_from (- 50) (undoStack f @ [cloneTag (root f)])
              in f\<lparr>root := newRoot, isModified := True, undoStack := newUndo, redoStack := []\<rparr>))
        (files app)\<rparr>"

definition handleUndo :: "App \<Rightarrow> App" where
  "handleUndo app =
     (case activeFile app of
        None \<Rightarrow> app
      | Some af \<Rightarrow>
          if length (undoStack af) = 0 then app
          else (let prevRoot = last (undoStack af);
                    newUndo = slice_upto (- 1) (undoStack af);
                    newRedo = redoStack af @ [cloneTag (root af)]
                in app\<lparr>files := map (\<lambda>f.
                     if file_id f = file_id af
                     then f\<lparr>root := prevRoot, undoStack := newUndo, redoStack := newRedo,
                            isModified := True\<rparr>
                     else f) (files app)\<rparr>))"

definition handleRedo :: "App \<Rightarrow> App" where
  "handleRedo app =
     (case activeFile app of
        None \<Rightarrow> app
      | Some af \<Rightarrow>
          if length (redoStack af) = 0 then app
          else (let nextRoot = last (redoStack af);
                    newRedo = slice_upto (- 1) (redoStack af);
                    newUndo = undoStack af @ [cloneTag (root af)]
                in app\<lparr>files := map (\<lambda>f.
                     if file_id f = file_id af
                     then f\<lparr>root := nextRoot, undoStack := newUndo, redoStack := newRedo,
                            isModified := True\<rparr>
                     else f) (files app)\<rparr>))"

text \<open>\<open>!activeFileId\<close> holds for \<open>null\<close> and for the empty string.\<close>

definition updateActiveFileRoot :: "NBTTag \<Rightarrow> App \<Rightarrow> App" where
  "updateActiveFileRoot newRoot app =
     (case activeFileId app of
        None \<Rightarrow> app
      | Some i \<Rightarrow> if i = [] then app else pushHistory i newRoot app)"

text \<open>
  \<open>deleteSelected\<close>, the caller of the bulk delete; \<open>confirmed\<close> is the answer of the
  \<open>confirm\<close> dialog.
\<close>

definition deleteSelected :: "bool \<Rightarrow> App \<Rightarrow> error + App" where
  "deleteSelected confirmed app =
     (case activeFile app of
        None \<Rightarrow> Inr app
      | Some af \<Rightarrow>
          if selectedPaths app = {} then Inr app
          else if \<not> confirmed then Inr app
          else (case deleteNodesByPaths (root af) (selectedPaths app) of
                  Inl e \<Rightarrow> Inl e
                | Inr newRoot \<Rightarrow> Inr ((updateActiveFileRoot newRoot app)\<lparr>selectedPaths := {}\<rparr>)))"

text \<open>The edits of one session: a commit of a new root, an undo, a redo.\<close>

datatype edit = Commit NBTTag | Undo | Redo

fun step :: "edit \<Rightarrow> App \<Rightarrow> App" where
  "step (Commit newRoot) app = updateActiveFileRoot newRoot app"
| "step Undo app = handleUndo app"
| "step Redo app = handleRedo app"

definition active_root :: "App \<Rightarrow> NBTTag option" where
  "active_root app = map_option root (activeFile app)"

definition last_n :: "nat \<Rightarrow> 'a list \<Rightarrow> 'a list" where
  "last_n n xs = drop (length xs - n) xs"

section \<open>Codec (utils/nbtParser.ts)\<close>

text \<open>
  What the codec takes from the platform and from \<open>pako\<close>, as parameters:
  \<open>TextEncoder.encode\<close> and \<open>TextDecoder.decode\<close>; the rounding of a number to IEEE-754
  binary32 that \<open>setFloat32\<close> does and the widening that \<open>getFloat32\<close> does, on bit
  patterns; \<open>pako.ungzip\<close> (\<open>None\<close> when it raises) and \<open>pako.gzip\<close>.
\<close>

record platform =
  utf8_encode :: "string \<Rightarrow> byte list"
  utf8_decode :: "byte list \<Rightarrow> string"
  float32_of_number :: "64 word \<Rightarrow> 32 word"
  number_of_float32 :: "32 word \<Rightarrow> 64 word"
  ungzip :: "byte list \<Rightarrow> byte list option"
  gzip :: "byte list \<Rightarrow> byte list"

text \<open>The numeric values of the enum, and the unchecked cast \<open>as TagType\<close> of a byte.\<close>

fun byte_of_TagType :: "TagType \<Rightarrow> int" where
  "byte_of_TagType TEnd = 0"
| "byte_of_TagType TByte = 1"
| "byte_of_TagType TShort = 2"
| "byte_of_TagType TInt = 3"
| "byte_of_TagType TLong = 4"
| "byte_of_TagType TFloat = 5"
| "byte_of_TagType TDouble = 6"
| "byte_of_TagType TByteArray = 7"
| "byte_of_TagType TString = 8"
| "byte_of_TagType TList = 9"
| "byte_of_TagType TCompound = 10"
| "byte_of_TagType TIntArray = 11"
| "byte_of_TagType TLongArray = 12"
| "byte_of_TagType (TUnlisted n) = int n"

definition TagType_of_byte :: "int \<Rightarrow> TagType" where
  "TagType_of_byte b =
     (if b = 0 then TEnd else if b = 1 then TByte else if b = 2 then TShort
      else if b = 3 then TInt else if b = 4 then TLong else if b = 5 then TFloat
      else if b = 6 then TDouble else if b = 7 then TByteArray else if b = 8 then TString
      else if b = 9 then TList else if b = 10 then TCompound else if b = 11 then TIntArray
      else if b = 12 then TLongArray else TUnlisted (nat b))"

subsection \<open>Numbers\<close>

text \<open>
  The two's complement reading of the low \<open>bits\<close> bits of an integer: \<open>ToInt32\<close> of the
  bitwise operators, and the signed getters of \<open>DataView\<close>.
\<close>

definition to_signed :: "nat \<Rightarrow> int \<Rightarrow> int" where
  "to_signed bits x = (x + 2 ^ (bits - 1)) mod 2 ^ bits - 2 ^ (bits - 1)"

definition toInt32 :: "int \<Rightarrow> int" where
  "toInt32 x = to_signed 32 x"

text \<open>
  \<open>Number(b)\<close> of a bigint: exact up to 53 bits, beyond that the nearest number with a
  53-bit significand, ties to even. (A bigint of 1024 bits or more becomes Infinity,
  which this model of numbers does not hold.)
\<close>

function bit_length :: "int \<Rightarrow> nat" where
  "bit_length a = (if a \<le> 0 then 0 else Suc (bit_length (a div 2)))"
  by pat_completeness auto
termination
  by (relation "measure nat") auto

declare bit_length.simps [simp del]

definition number_of_bigint :: "int \<Rightarrow> int" where
  "number_of_bigint b =
     (if \<bar>b\<bar> \<le> 2 ^ 53 then b
      else (let a = \<bar>b\<bar>;
                s = bit_length a - 53;
                q = a div 2 ^ s;
                r = a mod 2 ^ s;
                half = 2 ^ (s - 1);
                q' = (if half < r \<or> (r = half \<and> odd q) then q + 1 else q)
            in sgn b * (q' * 2 ^ s)))"

subsection \<open>NBTWriter\<close>

definition writeByte :: "int \<Rightarrow> byte list" where
  "writeByte b = [word_of_int (toInt32 b AND 255)]"

definition writeShort :: "int \<Rightarrow> byte list" where
  "writeShort s =
     [word_of_int (drop_bit 8 (toInt32 s) AND 255), word_of_int (toInt32 s AND 255)]"

definition writeInt :: "int \<Rightarrow> byte list" where
  "writeInt i =
     [word_of_int (drop_bit 24 (toInt32 i) AND 255), word_of_int (drop_bit 16 (toInt32 i) AND 255),
      word_of_int (drop_bit 8 (toInt32 i) AND 255), word_of_int (toInt32 i AND 255)]"

definition writeLong :: "int \<Rightarrow> byte list" where
  "writeLong l =
     (let high = number_of_bigint (drop_bit 32 l);
          low = number_of_bigint (l AND 4294967295)
      in writeInt high @ writeInt low)"

text \<open>The bytes of a \<open>DataView\<close> of \<open>n\<close> bytes that holds the unsigned value \<open>x\<close>, big-endian.\<close>

definition be_bytes :: "nat \<Rightarrow> int \<Rightarrow> byte list" where
  "be_bytes n x = map (\<lambda>i. word_of_int (drop_bit (8 * (n - 1 - i)) x)) [0 ..< n]"

definition writeFloat :: "platform \<Rightarrow> 64 word \<Rightarrow> byte list" where
  "writeFloat P f = concat (map (\<lambda>b. writeByte (uint b)) (be_bytes 4 (uint (float32_of_number P f))))"

definition writeDouble :: "64 word \<Rightarrow> byte list" where
  "writeDouble d = concat (map (\<lambda>b. writeByte (uint b)) (be_bytes 8 (uint d)))"

definition writeString :: "platform \<Rightarrow> string \<Rightarrow> byte list" where
  "writeString P s =
     (let bytes = utf8_encode P s
      in writeShort (int (length bytes)) @ concat (map (\<lambda>b. writeByte (uint b)) bytes))"

text \<open>
  The cases of the \<open>switch\<close> of \<open>writeTag\<close> that do not recurse. \<open>BigInt(v)\<close> accepts a
  bigint and an integral number. Every other value that has not the shape of its kind
  is coerced by the source in ways this model does not follow.
\<close>

definition writeFlat :: "platform \<Rightarrow> TagType \<Rightarrow> NBTTag nbt_value \<Rightarrow> error + byte list" where
  "writeFlat P ty v =
     (case ty of
        TByte \<Rightarrow> (case v of VNumber n \<Rightarrow> Inr (writeByte n) | _ \<Rightarrow> Inl Unmodelled)
      | TShort \<Rightarrow> (case v of VNumber n \<Rightarrow> Inr (writeShort n) | _ \<Rightarrow> Inl Unmodelled)
      | TInt \<Rightarrow> (case v of VNumber n \<Rightarrow> Inr (writeInt n) | _ \<Rightarrow> Inl Unmodelled)
      | TLong \<Rightarrow>
          (case v of
             VBigInt n \<Rightarrow> Inr (writeLong n)
           | VNumber n \<Rightarrow> Inr (writeLong n)
           | _ \<Rightarrow> Inl Unmodelled)
      | TFloat \<Rightarrow> (case v of VDouble f \<Rightarrow> Inr (writeFloat P f) | _ \<Rightarrow> Inl Unmodelled)
      | TDouble \<Rightarrow> (case v of VDouble d \<Rightarrow> Inr (writeDouble d) | _ \<Rightarrow> Inl Unmodelled)
      | TByteArray \<Rightarrow>
          (case v of
             VNumbers xs \<Rightarrow> Inr (writeInt (int (length xs)) @ concat (map writeByte xs))
           | _ \<Rightarrow> Inl Unmodelled)
      | TString \<Rightarrow> (case v of VString s \<Rightarrow> Inr (writeString P s) | _ \<Rightarrow> Inl Unmodelled)
      | TIntArray \<Rightarrow>
          (case v of
             VNumbers xs \<Rightarrow> Inr (writeInt (int (length xs)) @ concat (map writeInt xs))
           | _ \<Rightarrow> Inl Unmodelled)
      | TLongArray \<Rightarrow>
          (case v of
             VBigInts xs \<Rightarrow> Inr (writeInt (int (length xs)) @ concat (map writeLong xs))
           | VNumbers xs \<Rightarrow> Inr (writeInt (int (length xs)) @ concat (map writeLong xs))
           | _ \<Rightarrow> Inl Unmodelled)
      | _ \<Rightarrow> Inr [])"

text \<open>
  \<open>writeTag\<close>: the header unless \<open>skipHeader\<close>, then the payload. \<open>tag.name || ''\<close> is the
  empty string for a missing name.
\<close>

fun writeTag :: "platform \<Rightarrow> NBTTag \<Rightarrow> bool \<Rightarrow> bool \<Rightarrow> error + byte list" where
  "writeTag P (NBTTag ty nm v) isRoot skipHeader =
     (let header =
        (if \<not> skipHeader then
           writeByte (byte_of_TagType ty) @
           (if isRoot \<or> nm \<noteq> None then writeString P (case nm of None \<Rightarrow> [] | Some s \<Rightarrow> s) else [])
         else [])
      in if ty = TList then
           (case v of
              VList itemType items \<Rightarrow>
                (case mapE (\<lambda>item. writeTag P item False True) items of
                   Inl e \<Rightarrow> Inl e
                 | Inr bss \<Rightarrow>
                     Inr (header @ writeByte (byte_of_TagType itemType) @
                          writeInt (int (length items)) @ concat bss))
            | _ \<Rightarrow> Inl Unmodelled)
         else if ty = TCompound then
           (case v of
              VTags cs \<Rightarrow>
                (case mapE (\<lambda>child. writeTag P child False False) cs of
                   Inl e \<Rightarrow> Inl e
                 | Inr bss \<Rightarrow> Inr (header @ concat bss @ writeByte (byte_of_TagType TEnd)))
            | _ \<Rightarrow> Inl Unmodelled)
         else (case writeFlat P ty v of
                 Inl e \<Rightarrow> Inl e
               | Inr bs \<Rightarrow> Inr (header @ bs)))"

text \<open>\<open>NBTWriter.write\<close>.\<close>

definition NBTWriter_write :: "platform \<Rightarrow> NBTTag \<Rightarrow> bool \<Rightarrow> error + byte list" where
  "NBTWriter_write P rootTag compress =
     (case writeTag P rootTag True False of
        Inl e \<Rightarrow> Inl e
      | Inr u8 \<Rightarrow> if compress then Inr (gzip P u8) else Inr u8)"

subsection \<open>DataView and typed arrays\<close>

text \<open>
  The \<open>n\<close> bytes at \<open>off\<close>: a getter of \<open>DataView\<close> and the constructor of a typed array
  over the buffer raise RangeError unless all of them lie inside the buffer.
\<close>

definition view :: "byte list \<Rightarrow> nat \<Rightarrow> nat \<Rightarrow> error + byte list" where
  "view buf off n = (if off + n \<le> length buf then Inr (take n (drop off buf)) else Inl RangeError)"

definition be_uint :: "byte list \<Rightarrow> int" where
  "be_uint bs = foldl (\<lambda>a b. a * 256 + uint b) 0 bs"

definition getUint8 :: "byte list \<Rightarrow> nat \<Rightarrow> error + int" where
  "getUint8 buf off = map_sum (\<lambda>e. e) be_uint (view buf off 1)"

definition getInt8 :: "byte list \<Rightarrow> nat \<Rightarrow> error + int" where
  "getInt8 buf off = map_sum (\<lambda>e. e) (\<lambda>bs. to_signed 8 (be_uint bs)) (view buf off 1)"

definition getUint16 :: "byte list \<Rightarrow> nat \<Rightarrow> error + int" where
  "getUint16 buf off = map_sum (\<lambda>e. e) be_uint (view buf off 2)"

definition getInt16 :: "byte list \<Rightarrow> nat \<Rightarrow> error + int" where
  "getInt16 buf off = map_sum (\<lambda>e. e) (\<lambda>bs. to_signed 16 (be_uint bs)) (view buf off 2)"

definition getInt32 :: "byte list \<Rightarrow> nat \<Rightarrow> error + int" where
  "getInt32 buf off = map_sum (\<lambda>e. e) (\<lambda>bs. to_signed 32 (be_uint bs)) (view buf off 4)"

definition getFloat32 :: "platform \<Rightarrow> byte list \<Rightarrow> nat \<Rightarrow> error + 64 word" where
  "getFloat32 P buf off =
     map_sum (\<lambda>e. e) (\<lambda>bs. number_of_float32 P (word_of_int (be_uint bs))) (view buf off 4)"

definition getFloat64 :: "byte list \<Rightarrow> nat \<Rightarrow> error + 64 word" where
  "getFloat64 buf off = map_sum (\<lambda>e. e) (\<lambda>bs. word_of_int (be_uint bs)) (view buf off 8)"

subsection \<open>NBTParser\<close>

definition parseLong :: "byte list \<Rightarrow> nat \<Rightarrow> error + int" where
  "parseLong buf off =
     (case getInt32 buf off of
        Inl e \<Rightarrow> Inl e
      | Inr high \<Rightarrow>
          (case getInt32 buf (off + 4) of
             Inl e \<Rightarrow> Inl e
           | Inr low \<Rightarrow> Inr (push_bit 32 high OR (low AND 4294967295))))"

text \<open>
  The readers take the buffer and the field \<open>offset\<close>, and return the value read with
  the new offset.
\<close>

definition readString :: "platform \<Rightarrow> byte list \<Rightarrow> nat \<Rightarrow> error + string \<times> nat" where
  "readString P buf off =
     (case getUint16 buf off of
        Inl e \<Rightarrow> Inl e
      | Inr len \<Rightarrow>
          (let off = off + 2 in
           case view buf off (nat len) of
             Inl e \<Rightarrow> Inl e
           | Inr strBuffer \<Rightarrow> Inr (utf8_decode P strBuffer, off + nat len)))"

text \<open>The loops of the IntArray and LongArray cases, \<open>n\<close> elements to go.\<close>

primrec readInts :: "byte list \<Rightarrow> nat \<Rightarrow> nat \<Rightarrow> error + int list \<times> nat" where
  "readInts buf off 0 = Inr ([], off)"
| "readInts buf off (Suc n) =
     (case getInt32 buf off of
        Inl e \<Rightarrow> Inl e
      | Inr x \<Rightarrow>
          (case readInts buf (off + 4) n of
             Inl e \<Rightarrow> Inl e
           | Inr (xs, off') \<Rightarrow> Inr (x # xs, off')))"

primrec readLongs :: "byte list \<Rightarrow> nat \<Rightarrow> nat \<Rightarrow> error + int list \<times> nat" where
  "readLongs buf off 0 = Inr ([], off)"
| "readLongs buf off (Suc n) =
     (case parseLong buf off of
        Inl e \<Rightarrow> Inl e
      | Inr x \<Rightarrow>
          (case readLongs buf (off + 8) n of
             Inl e \<Rightarrow> Inl e
           | Inr (xs, off') \<Rightarrow> Inr (x # xs, off')))"

text \<open>
  The cases of the \<open>switch\<close> of \<open>readTag\<close> that do not recurse. No case matches a kind
  outside the enum, and the value stays \<open>undefined\<close>. (End, List and Compound are read by
  \<open>readTag\<close> itself.)
\<close>

definition readFlat :: "platform \<Rightarrow> byte list \<Rightarrow> nat \<Rightarrow> TagType \<Rightarrow> error + NBTTag nbt_value \<times> nat" where
  "readFlat P buf off ty =
     (case ty of
        TByte \<Rightarrow> map_sum (\<lambda>e. e) (\<lambda>v. (VNumber v, off + 1)) (getInt8 buf off)
      | TShort \<Rightarrow> map_sum (\<lambda>e. e) (\<lambda>v. (VNumber v, off + 2)) (getInt16 buf off)
      | TInt \<Rightarrow> map_sum (\<lambda>e. e) (\<lambda>v. (VNumber v, off + 4)) (getInt32 buf off)
      | TLong \<Rightarrow> map_sum (\<lambda>e. e) (\<lambda>v. (VBigInt v, off + 8)) (parseLong buf off)
      | TFloat \<Rightarrow> map_sum (\<lambda>e. e) (\<lambda>v. (VDouble v, off + 4)) (getFloat32 P buf off)
      | TDouble \<Rightarrow> map_sum (\<lambda>e. e) (\<lambda>v. (VDouble v, off + 8)) (getFloat64 buf off)
      | TByteArray \<Rightarrow>
          (case getInt32 buf off of
             Inl e \<Rightarrow> Inl e
           | Inr lenByte \<Rightarrow>
               (let off = off + 4 in
                if lenByte < 0 then Inl RangeError
                else (case view buf off (nat lenByte) of
                        Inl e \<Rightarrow> Inl e
                      | Inr bytes \<Rightarrow> Inr (VNumbers (map sint bytes), off + nat lenByte))))
      | TString \<Rightarrow> map_sum (\<lambda>e. e) (\<lambda>(s, off). (VString s, off)) (readString P buf off)
      | TIntArray \<Rightarrow>
          (case getInt32 buf off of
             Inl e \<Rightarrow> Inl e
           | Inr lenInt \<Rightarrow>
               map_sum (\<lambda>e. e) (\<lambda>(xs, off). (VNumbers xs, off)) (readInts buf (off + 4) (nat lenInt)))
      | TLongArray \<Rightarrow>
          (case getInt32 buf off of
             Inl e \<Rightarrow> Inl e
           | Inr lenLong \<Rightarrow>
               map_sum (\<lambda>e. e) (\<lambda>(xs, off). (VBigInts xs, off)) (readLongs buf (off + 4) (nat lenLong)))
      | _ \<Rightarrow> Inr (VUndefined, off))"

text \<open>The head of \<open>readTag\<close>: the kind, read unless it is forced, and the name.\<close>

definition readType :: "byte list \<Rightarrow> nat \<Rightarrow> TagType option \<Rightarrow> error + TagType \<times> nat" where
  "readType buf off forcedType =
     (case forcedType of
        None \<Rightarrow> map_sum (\<lambda>e. e) (\<lambda>b. (TagType_of_byte b, off + 1)) (getUint8 buf off)
      | Some ty \<Rightarrow> Inr (ty, off))"

definition readName ::
  "platform \<Rightarrow> byte list \<Rightarrow> nat \<Rightarrow> bool \<Rightarrow> TagType option \<Rightarrow> string option \<Rightarrow> error + string option \<times> nat" where
  "readName P buf off isRoot forcedType forcedName =
     (if forcedName = None \<and> isRoot then
        map_sum (\<lambda>e. e) (\<lambda>(s, off). (Some s, off)) (readString P buf off)
      else if forcedName = None \<and> forcedType = None then
        map_sum (\<lambda>e. e) (\<lambda>(s, off). (Some s, off)) (readString P buf off)
      else Inr (forcedName, off))"

text \<open>
  The recursion of \<open>readTag\<close> with fuel: one unit for each call of \<open>readTag\<close> and for each
  turn of the loops of the List and Compound cases. \<open>None\<close> is the answer when the fuel
  runs out; \<open>Some (Inl e)\<close> is a raised error, \<open>Some (Inr (x, off))\<close> a result with the new
  offset.
\<close>

type_synonym 'a reading = "(error + 'a \<times> nat) option"

definition bindR :: "'a reading \<Rightarrow> ('a \<Rightarrow> nat \<Rightarrow> 'b reading) \<Rightarrow> 'b reading" where
  "bindR m k =
     (case m of
        None \<Rightarrow> None
      | Some (Inl e) \<Rightarrow> Some (Inl e)
      | Some (Inr (x, off)) \<Rightarrow> k x off)"

fun readTag ::
    "platform \<Rightarrow> nat \<Rightarrow> byte list \<Rightarrow> nat \<Rightarrow> bool \<Rightarrow> TagType option \<Rightarrow> string option \<Rightarrow> NBTTag reading"
  and readListItems ::
    "platform \<Rightarrow> nat \<Rightarrow> byte list \<Rightarrow> nat \<Rightarrow> TagType \<Rightarrow> nat \<Rightarrow> NBTTag list reading"
  and readCompoundItems ::
    "platform \<Rightarrow> nat \<Rightarrow> byte list \<Rightarrow> nat \<Rightarrow> NBTTag list reading"
where
  "readTag P 0 buf off isRoot forcedType forcedName = None"
| "readTag P (Suc fuel) buf off isRoot forcedType forcedName =
     bindR (Some (readType buf off forcedType)) (\<lambda>ty off.
       if ty = TEnd then Some (Inr (NBTTag ty None VNull, off))
       else
         bindR (Some (readName P buf off isRoot forcedType forcedName)) (\<lambda>name off.
           bindR
             (if ty = TList then
                bindR (Some (map_sum (\<lambda>e. e) (\<lambda>b. (TagType_of_byte b, off + 1)) (getUint8 buf off)))
                  (\<lambda>itemType off.
                     bindR (Some (map_sum (\<lambda>e. e) (\<lambda>n. (n, off + 4)) (getInt32 buf off)))
                       (\<lambda>listLen off.
                          bindR (readListItems P fuel buf off itemType (nat listLen))
                            (\<lambda>items off. Some (Inr (VList itemType items, off)))))
              else if ty = TCompound then
                bindR (readCompoundItems P fuel buf off) (\<lambda>cs off. Some (Inr (VTags cs, off)))
              else Some (readFlat P buf off ty))
             (\<lambda>v off. Some (Inr (NBTTag ty name v, off)))))"
| "readListItems P 0 buf off itemType n = None"
| "readListItems P (Suc fuel) buf off itemType n =
     (if n = 0 then Some (Inr ([], off))
      else
        bindR (readTag P fuel buf off False (Some itemType) None) (\<lambda>item off.
          bindR (readListItems P fuel buf off itemType (n - 1)) (\<lambda>items off.
            Some (Inr (item # items, off)))))"
| "readCompoundItems P 0 buf off = None"
| "readCompoundItems P (Suc fuel) buf off =
     (case getUint8 buf off of
        Inl e \<Rightarrow> Some (Inl e)
      | Inr nextType \<Rightarrow>
          if TagType_of_byte nextType = TEnd then Some (Inr ([], off + 1))
          else
            bindR (readTag P fuel buf off False None None) (\<lambda>child off.
              bindR (readCompoundItems P fuel buf off) (\<lambda>children off.
                Some (Inr (child # children, off)))))"

text \<open>\<open>parser.readTag(true)\<close> on a new parser.\<close>

definition decode :: "platform \<Rightarrow> nat \<Rightarrow> byte list \<Rightarrow> NBTTag reading" where
  "decode P fuel buf = readTag P fuel buf 0 True None None"

text \<open>\<open>arr[i]\<close> of a \<open>Uint8Array\<close>: \<open>undefined\<close> outside the array.\<close>

definition u8_at :: "byte list \<Rightarrow> nat \<Rightarrow> byte option" where
  "u8_at arr i = (if i < length arr then Some (arr ! i) else None)"

text \<open>
  \<open>NBTParser.parse\<close> on the bytes of the file, with the check of the GZIP magic number
  (1F 8B); a rejected promise is an error.
\<close>

definition gzip_magic :: "byte list \<Rightarrow> bool" where
  "gzip_magic arr = (u8_at arr 0 = Some 31 \<and> u8_at arr 1 = Some 139)"

definition parse :: "platform \<Rightarrow> nat \<Rightarrow> byte list \<Rightarrow> (error + NBTTag \<times> bool) option" where
  "parse P fuel file =
     (if gzip_magic file then
        (case ungzip P file of
           None \<Rightarrow> Some (Inl InvalidGzip)
         | Some inflated \<Rightarrow>
             map_option (map_sum (\<lambda>e. e) (\<lambda>(t, off). (t, True))) (decode P fuel inflated))
      else map_option (map_sum (\<lambda>e. e) (\<lambda>(t, off). (t, False))) (decode P fuel file))"

subsection \<open>Trees that the format holds\<close>

text \<open>
  A text that the format holds: its encoding fits the 16-bit length prefix, and the
  platform decodes the encoding back to the text.
\<close>

definition text_ok :: "platform \<Rightarrow> string \<Rightarrow> bool" where
  "text_ok P s = (length (utf8_encode P s) < 65536 \<and> utf8_decode P (utf8_encode P s) = s)"

definition in_bits :: "nat \<Rightarrow> int \<Rightarrow> bool" where
  "in_bits n x = (- (2 ^ (n - 1)) \<le> x \<and> x < 2 ^ (n - 1))"

definition named_ok :: "platform \<Rightarrow> NBTTag \<Rightarrow> bool" where
  "named_ok P t =
     (tag_type t \<noteq> TEnd \<and> (case tag_name t of None \<Rightarrow> False | Some s \<Rightarrow> text_ok P s))"

definition listed :: "TagType \<Rightarrow> bool" where
  "listed ty = (case ty of TUnlisted n \<Rightarrow> False | _ \<Rightarrow> True)"

text \<open>
  The payload of a tag is what its kind holds: a number within the width of the kind, a
  Float that is a single-precision value, sequences whose length fits the signed 32-bit
  prefix, the elements of a List unnamed and of the declared kind, the children of a
  Compound named and not of kind End.
\<close>

fun wf_payload :: "platform \<Rightarrow> NBTTag \<Rightarrow> bool" where
  "wf_payload P (NBTTag ty nm v) =
     (case ty of
        TEnd \<Rightarrow> v = VNull
      | TByte \<Rightarrow> (case v of VNumber n \<Rightarrow> in_bits 8 n | _ \<Rightarrow> False)
      | TShort \<Rightarrow> (case v of VNumber n \<Rightarrow> in_bits 16 n | _ \<Rightarrow> False)
      | TInt \<Rightarrow> (case v of VNumber n \<Rightarrow> in_bits 32 n | _ \<Rightarrow> False)
      | TLong \<Rightarrow> (case v of VBigInt n \<Rightarrow> in_bits 64 n | _ \<Rightarrow> False)
      | TFloat \<Rightarrow>
          (case v of VDouble f \<Rightarrow> number_of_float32 P (float32_of_number P f) = f | _ \<Rightarrow> False)
      | TDouble \<Rightarrow> (case v of VDouble d \<Rightarrow> True | _ \<Rightarrow> False)
      | TByteArray \<Rightarrow>
          (case v of VNumbers xs \<Rightarrow> length xs < 2 ^ 31 \<and> list_all (in_bits 8) xs | _ \<Rightarrow> False)
      | TString \<Rightarrow> (case v of VString s \<Rightarrow> text_ok P s | _ \<Rightarrow> False)
      | TList \<Rightarrow>
          (case v of
             VList itemType items \<Rightarrow>
               listed itemType \<and> length items < 2 ^ 31 \<and>
               list_all (\<lambda>item. tag_type item = itemType \<and> tag_name item = None \<and> wf_payload P item) items
           | _ \<Rightarrow> False)
      | TCompound \<Rightarrow>
          (case v of
             VTags cs \<Rightarrow> list_all (\<lambda>child. named_ok P child \<and> wf_payload P child) cs
           | _ \<Rightarrow> False)
      | TIntArray \<Rightarrow>
          (case v of VNumbers xs \<Rightarrow> length xs < 2 ^ 31 \<and> list_all (in_bits 32) xs | _ \<Rightarrow> False)
      | TLongArray \<Rightarrow>
          (case v of VBigInts xs \<Rightarrow> length xs < 2 ^ 31 \<and> list_all (in_bits 64) xs | _ \<Rightarrow> False)
      | TUnlisted n \<Rightarrow> False)"

text \<open>A well-formed tree: the root is named and not of kind End, and its payload is as above.\<close>

definition well_formed :: "platform \<Rightarrow> NBTTag \<Rightarrow> bool" where
  "well_formed P t = (named_ok P t \<and> wf_payload P t)"

text \<open>Fuel that suffices to read a tree back: one unit for each tag and for each turn of a loop.\<close>

fun tag_fuel :: "NBTTag \<Rightarrow> nat" where
  "tag_fuel (NBTTag ty nm v) =
     (case v of
        VTags cs \<Rightarrow> 2 + sum_list (map (\<lambda>child. Suc (tag_fuel child)) cs)
      | VList itemType items \<Rightarrow> 2 + sum_list (map (\<lambda>item. Suc (tag_fuel item)) items)
      | _ \<Rightarrow> 1)"

section \<open>Examples\<close>

definition example_root :: NBTTag where
  "example_root =
     NBTTag TCompound (Some [])
       (VTags [NBTTag TInt (Some ''a'') (VNumber 1),
               NBTTag TInt (Some ''a'') (VNumber 2),
               NBTTag TList (Some ''l'') (VList TByte [NBTTag TByte None (VNumber 7), NBTTag TByte None (VNumber 8)])])"

definition example_file :: NBTFile where
  "example_file =
     \<lparr>file_id = ''doc'', filename = ''level.dat'', root = example_root, isCompressed = False,
      isModified = False, undoStack = [], redoStack = []\<rparr>"

definition example_app :: App where
  "example_app = \<lparr>files = [example_file], activeFileId = Some ''doc'', selectedPaths = {}\<rparr>"

text \<open>
  A platform for the examples: text of one byte for each character, a stand-in for the
  two float conversions (the upper half of the pattern), no decompression.
\<close>

definition ascii_platform :: platform where
  "ascii_platform =
     \<lparr>utf8_encode = map (\<lambda>c. of_nat (of_char c)), utf8_decode = map (\<lambda>b. char_of (unat b)),
      float32_of_number = (\<lambda>w. ucast (drop_bit 32 w)), number_of_float32 = (\<lambda>f. push_bit 32 (ucast f)),
      ungzip = (\<lambda>bs. None), gzip = (\<lambda>bs. bs)\<rparr>"

text \<open>
  A Compound with two children named \<open>x\<close>, below a List: the second element of the List
  \<open>l\<close> of the root.
\<close>

definition nested_root :: NBTTag where
  "nested_root =
     NBTTag TCompound (Some []) (VTags
       [NBTTag TList (Some ''l'') (VList TCompound
          [NBTTag TCompound None (VTags []),
           NBTTag TCompound None (VTags
             [NBTTag TInt (Some ''x'') (VNumber 1),
              NBTTag TInt (Some ''y'') (VNumber 2),
              NBTTag TInt (Some ''x'') (VNumber 3)])])])"

text \<open>The scenario of the specification: a Compound named \<open>""\<close> with one Int child.\<close>

definition xp_root :: NBTTag where
  "xp_root = NBTTag TCompound (Some []) (VTags [NBTTag TInt (Some ''XpLevel'') (VNumber 5)])"

definition xp_bytes :: "byte list" where
  "xp_bytes = [10, 0, 0, 3, 0, 7, 88, 112, 76, 101, 118, 101, 108, 0, 0, 0, 5, 0]"

section \<open>Properties of the tree utilities\<close>

lemma cloneTag_id: "cloneTag t = t"
proof (induction t)
  case (NBTTag ty nm v)
  then show ?case
    by (cases v) (auto simp: map_idI)
qed

lemma mapE_Inr: "(\<And>x. x \<in> set xs \<Longrightarrow> f x = Inr (g x)) \<Longrightarrow> mapE f xs = Inr (map g xs)"
  by (induction xs) auto

lemma not_null_map_if:
  "not_null (map (\<lambda>x. if P x then None else Some (h x)) xs) = map h (filter (\<lambda>x. \<not> P x) xs)"
  by (induction xs) auto

lemma not_null_map_if2:
  "not_null (map (\<lambda>(c, i). if P c i then None else Some (h c i)) xs) =
   map (\<lambda>(c, i). h c i) (filter (\<lambda>(c, i). \<not> P c i) xs)"
  by (induction xs) auto

lemma recursiveDelete_pruned:
  "shaped t \<Longrightarrow> recursiveDelete S t p = Inr (if p \<in> S then None else Some (pruned S t p))"
proof (induction t arbitrary: p)
  case (NBTTag ty nm v)
  show ?case
  proof (cases v)
    case (VTags cs)
    have ih: "\<And>c q. c \<in> set cs \<Longrightarrow> shaped c \<Longrightarrow>
        recursiveDelete S c q = Inr (if q \<in> S then None else Some (pruned S c q))"
      using NBTTag.IH VTags by auto
    show ?thesis
    proof (cases "ty = TCompound")
      case True
      with NBTTag.prems VTags have sh: "\<And>c. c \<in> set cs \<Longrightarrow> shaped c"
        by (auto simp: list_all_iff)
      have "mapE (\<lambda>child. recursiveDelete S child (child_path p child)) cs =
            Inr (map (\<lambda>c. if child_path p c \<in> S then None else Some (pruned S c (child_path p c))) cs)"
        by (rule mapE_Inr) (simp add: ih sh)
      then show ?thesis using True VTags
        by (simp add: not_null_map_if)
    next
      case False
      then show ?thesis using NBTTag.prems VTags by auto
    qed
  next
    case (VList itemType items)
    have ih: "\<And>c q. c \<in> set items \<Longrightarrow> shaped c \<Longrightarrow>
        recursiveDelete S c q = Inr (if q \<in> S then None else Some (pruned S c q))"
      using NBTTag.IH VList by auto
    show ?thesis
    proof (cases "ty = TList")
      case True
      with NBTTag.prems VList have sh: "\<And>c. c \<in> set items \<Longrightarrow> shaped c"
        by (auto simp: list_all_iff)
      have "mapE (\<lambda>(child, idx). recursiveDelete S child (index_path p idx)) (indexed items) =
            Inr (map (\<lambda>(c, i). if index_path p i \<in> S then None else Some (pruned S c (index_path p i))) (indexed items))"
        by (rule mapE_Inr) (auto simp: ih sh dest: indexed_fst)
      moreover have "not_null (map (\<lambda>(c, i). if index_path p i \<in> S then None else Some (pruned S c (index_path p i))) (indexed items))
         = map (\<lambda>(c, i). pruned S c (index_path p i)) (filter (\<lambda>(c, i). index_path p i \<notin> S) (indexed items))"
        by (rule not_null_map_if2)
      ultimately show ?thesis using True VList
        by simp
    next
      case False
      then show ?thesis using NBTTag.prems VList by auto
    qed
  qed (use NBTTag.prems in auto)
qed

lemma mapE_InrD:
  "mapE f xs = Inr ys \<Longrightarrow> length ys = length xs \<and> (\<forall>i < length xs. f (xs ! i) = Inr (ys ! i))"
proof (induction xs arbitrary: ys)
  case Nil
  then show ?case by simp
next
  case (Cons x xs)
  then show ?case
    by (auto split: sum.splits simp: nth_Cons split: nat.splits)
qed

lemma mapE_Inr_set:
  assumes "mapE f xs = Inr ys" "x \<in> set xs"
  shows "\<exists>y. f x = Inr y \<and> set y \<subseteq> set (concat ys)"
proof -
  from assms(2) obtain i where i: "i < length xs" "xs ! i = x"
    by (auto simp: in_set_conv_nth)
  with mapE_InrD [OF assms(1)] have fx: "f x = Inr (ys ! i)" and il: "i < length ys"
    by auto
  from il have "ys ! i \<in> set ys" by simp
  then have "set (ys ! i) \<subseteq> set (concat ys)" by auto
  with fx show ?thesis by blast
qed

lemma pruned_noop:
  "shaped t \<Longrightarrow> flattenTree t p = Inr ps \<Longrightarrow> set ps \<inter> S = {} \<Longrightarrow> pruned S t p = t"
proof (induction t arbitrary: p ps)
  case (NBTTag ty nm v)
  show ?case
  proof (cases v)
    case (VTags cs)
    show ?thesis
    proof (cases "ty = TCompound")
      case True
      from NBTTag.prems(2) True VTags obtain pss where
        pss: "mapE (\<lambda>child. flattenTree child (child_path p child)) cs = Inr pss"
        and ps: "ps = p # concat pss"
        by (auto split: sum.splits)
      have sh: "\<And>c. c \<in> set cs \<Longrightarrow> shaped c"
        using NBTTag.prems(1) True VTags by (auto simp: list_all_iff)
      have keep: "child_path p c \<notin> S \<and> pruned S c (child_path p c) = c" if c: "c \<in> set cs" for c
      proof -
        from mapE_Inr_set [OF pss c] obtain qs where
          qs: "flattenTree c (child_path p c) = Inr qs" "set qs \<subseteq> set (concat pss)"
          by auto
        have hd: "child_path p c \<in> set qs"
          using qs(1) by (cases c) (auto split: if_splits nbt_value.splits sum.splits)
        have disj: "set qs \<inter> S = {}"
          using qs(2) NBTTag.prems(3) ps by auto
        have "pruned S c (child_path p c) = c"
          using NBTTag.IH [of c] VTags c sh [OF c] qs(1) disj by auto
        with hd disj show ?thesis by auto
      qed
      have "filter (\<lambda>c. child_path p c \<notin> S) cs = cs"
        using keep by (simp add: filter_id_conv)
      moreover have "map (\<lambda>c. pruned S c (child_path p c)) cs = cs"
        using keep by (simp add: map_idI)
      ultimately show ?thesis using True VTags by simp
    next
      case False
      then show ?thesis using VTags by auto
    qed
  next
    case (VList itemType items)
    show ?thesis
    proof (cases "ty = TList")
      case True
      from NBTTag.prems(2) True VList obtain pss where
        pss: "mapE (\<lambda>(child, idx). flattenTree child (index_path p idx)) (indexed items) = Inr pss"
        and ps: "ps = p # concat pss"
        by (auto split: sum.splits)
      have sh: "\<And>c. c \<in> set items \<Longrightarrow> shaped c"
        using NBTTag.prems(1) True VList by (auto simp: list_all_iff)
      have keep: "index_path p i \<notin> S \<and> pruned S c (index_path p i) = c"
        if ci: "(c, i) \<in> set (indexed items)" for c i
      proof -
        from mapE_Inr_set [OF pss ci] obtain qs where
          qs: "flattenTree c (index_path p i) = Inr qs" "set qs \<subseteq> set (concat pss)"
          by auto
        have c: "c \<in> set items" using ci by (rule indexed_fst)
        have hd: "index_path p i \<in> set qs"
          using qs(1) by (cases c) (auto split: if_splits nbt_value.splits sum.splits)
        have disj: "set qs \<inter> S = {}"
          using qs(2) NBTTag.prems(3) ps by auto
        have "pruned S c (index_path p i) = c"
          using NBTTag.IH [of c] VList c sh [OF c] qs(1) disj by auto
        with hd disj show ?thesis by auto
      qed
      have "filter (\<lambda>(c, i). index_path p i \<notin> S) (indexed items) = indexed items"
        using keep by (auto simp: filter_id_conv)
      moreover have "map (\<lambda>(c, i). pruned S c (index_path p i)) (indexed items) = map fst (indexed items)"
        using keep by (auto intro!: map_cong)
      moreover have "map fst (indexed items) = items"
        by (simp add: indexed_def)
      ultimately show ?thesis using True VList by simp
    next
      case False
      then show ?thesis using VList by auto
    qed
  qed auto
qed


lemma mapE_Inr_ex:
  "(\<And>x. x \<in> set xs \<Longrightarrow> \<exists>y. f x = Inr y) \<Longrightarrow> \<exists>ys. mapE f xs = Inr ys"
proof (induction xs)
  case Nil
  then show ?case by simp
next
  case (Cons x xs)
  then obtain y ys where "f x = Inr y" "mapE f xs = Inr ys"
    by (metis list.set_intros(1,2))
  then show ?case by simp
qed

lemma flattenTree_shaped: "shaped t \<Longrightarrow> \<exists>ps. flattenTree t p = Inr (p # ps)"
proof (induction t arbitrary: p)
  case (NBTTag ty nm v)
  show ?case
  proof (cases v)
    case (VTags cs)
    show ?thesis
    proof (cases "ty = TCompound")
      case True
      have "\<exists>pss. mapE (\<lambda>child. flattenTree child (child_path p child)) cs = Inr pss"
      proof (rule mapE_Inr_ex)
        fix c assume c: "c \<in> set cs"
        then have "shaped c" using NBTTag.prems True VTags by (auto simp: list_all_iff)
        with NBTTag.IH [of c] c VTags show "\<exists>y. flattenTree c (child_path p c) = Inr y"
          by fastforce
      qed
      then show ?thesis using True VTags by auto
    next
      case False
      then show ?thesis using NBTTag.prems VTags by auto
    qed
  next
    case (VList itemType items)
    show ?thesis
    proof (cases "ty = TList")
      case True
      have "\<exists>pss. mapE (\<lambda>(child, idx). flattenTree child (index_path p idx)) (indexed items) = Inr pss"
      proof (rule mapE_Inr_ex)
        fix x assume x: "x \<in> set (indexed items)"
        obtain c i where ci: "x = (c, i)" by (cases x)
        with x have c: "c \<in> set items" by (auto dest: indexed_fst)
        then have "shaped c" using NBTTag.prems True VList by (auto simp: list_all_iff)
        with NBTTag.IH [of c] c VList ci
        show "\<exists>y. (case x of (child, idx) \<Rightarrow> flattenTree child (index_path p idx)) = Inr y"
          by fastforce
      qed
      then show ?thesis using True VList by auto
    next
      case False
      then show ?thesis using NBTTag.prems VList by auto
    qed
  qed (use NBTTag.prems in auto)
qed

lemma deleteNodesByPaths_pruned:
  assumes "shaped t" "''root'' \<notin> S"
  shows "deleteNodesByPaths t S = Inr (pruned S t ''root'')"
  using assms by (simp add: deleteNodesByPaths_def cloneTag_id recursiveDelete_pruned)

lemma two_fail_filter:
  assumes "i < j" "j < length xs" "\<not> P (xs ! i)" "\<not> P (xs ! j)"
  shows "length (filter P xs) + 2 \<le> length xs"
proof -
  have "{i, j} \<subseteq> {k. k < length xs \<and> \<not> P (xs ! k)}"
    using assms by auto
  then have "card {i, j} \<le> card {k. k < length xs \<and> \<not> P (xs ! k)}"
    by (intro card_mono) auto
  moreover have "card {i, j} = 2" using assms(1) by auto
  moreover have "length (filter (\<lambda>x. \<not> P x) xs) = card {k. k < length xs \<and> \<not> P (xs ! k)}"
    by (rule length_filter_conv_card)
  moreover have "length (filter P xs) + length (filter (\<lambda>x. \<not> P x) xs) = length xs"
    by (rule sum_length_filter_compl)
  ultimately show ?thesis by arith
qed

lemma flattenTree_head: "flattenTree c q = Inr qs \<Longrightarrow> q \<in> set qs"
  by (cases c) (auto split: if_splits nbt_value.splits sum.splits)

subsection \<open>Nodes below the root\<close>

lemma kids_shaped:
  assumes "shaped t" and "(c, q) \<in> set (kids t p)"
  shows "shaped c"
proof (cases t)
  case (NBTTag ty nm v)
  with assms show ?thesis
    by (cases "ty = TCompound"; cases "ty = TList"; cases v)
      (auto simp: list_all_iff dest: indexed_fst)
qed

lemma kids_longer:
  assumes "(c, q) \<in> set (kids t p)"
  shows "length p < length q"
proof (cases t)
  case (NBTTag ty nm v)
  with assms show ?thesis
    by (cases "ty = TCompound"; cases "ty = TList"; cases v)
      (auto simp: child_path_def index_path_def)
qed

lemma map_fst_indexed: "map fst (indexed xs) = xs"
  by (simp add: indexed_def)

lemma kids_pruned:
  assumes sh: "shaped t"
  shows "map fst (kids (pruned S t p) p') =
     map (\<lambda>(c, q). pruned S c q) (filter (\<lambda>(c, q). q \<notin> S) (kids t p))"
proof (cases t)
  case (NBTTag ty nm v)
  show ?thesis
  proof (cases "ty = TCompound")
    case True
    with sh NBTTag obtain cs where v: "v = VTags cs"
      by (cases v) auto
    show ?thesis
      unfolding NBTTag v using True by (simp add: filter_map o_def)
  next
    case False
    show ?thesis
    proof (cases "ty = TList")
      case True
      with sh NBTTag obtain itemType items where v: "v = VList itemType items"
        by (cases v) auto
      have "map fst (map (\<lambda>(c, i). (c, index_path p' i)) (indexed ys)) = ys" for ys :: "NBTTag list"
        using map_fst_indexed [of ys] by (simp add: o_def split_def)
      then show ?thesis
        unfolding NBTTag v using True by (simp add: filter_map o_def split_def)
    next
      case nl: False
      have "pruned S t p = t"
        unfolding NBTTag using False nl by simp
      then show ?thesis
        unfolding NBTTag using False nl by simp
    qed
  qed
qed

lemma nth_filter_take:
  assumes "k < length xs" and "P (xs ! k)"
  shows "length (filter P (take k xs)) < length (filter P xs)"
    and "filter P xs ! length (filter P (take k xs)) = xs ! k"
proof -
  have "xs = take k xs @ xs ! k # drop (Suc k) xs"
    using assms(1) by (simp add: id_take_nth_drop)
  then have "filter P xs = filter P (take k xs) @ filter P (xs ! k # drop (Suc k) xs)"
    by (metis filter_append)
  then have f: "filter P xs = filter P (take k xs) @ xs ! k # filter P (drop (Suc k) xs)"
    using assms(2) by simp
  have "length (filter P xs) =
      length (filter P (take k xs)) + Suc (length (filter P (drop (Suc k) xs)))"
    using arg_cong [OF f, of length] by simp
  then show "length (filter P (take k xs)) < length (filter P xs)"
    by simp
  show "filter P xs ! length (filter P (take k xs)) = xs ! k"
    by (subst f) (simp add: nth_append)
qed

lemma place_after_kept: "place_after S t p ks = Some ks' \<Longrightarrow> p \<notin> S"
  by (cases ks) (auto split: if_splits)

lemma node_at_pruned:
  "shaped t \<Longrightarrow> node_at t p ks = Some (c, q) \<Longrightarrow> place_after S t p ks = Some ks' \<Longrightarrow>
   map_option fst (node_at (pruned S t p) p' ks') = Some (pruned S c q)"
proof (induction ks arbitrary: t p p' ks')
  case Nil
  then show ?case by (auto split: if_splits)
next
  case (Cons k ks)
  let ?P = "\<lambda>(c, q). q \<notin> S"
  let ?k' = "length (filter ?P (take k (kids t p)))"
  obtain c1 q1 where c1: "kids t p ! k = (c1, q1)"
    by (cases "kids t p ! k")
  from Cons.prems(2) have k: "k < length (kids t p)"
    by (auto split: if_splits)
  with Cons.prems(2) c1 have n1: "node_at c1 q1 ks = Some (c, q)"
    by simp
  from Cons.prems(3) k c1 obtain ks1 where
    p1: "place_after S c1 q1 ks = Some ks1" and ks': "ks' = ?k' # ks1"
    by (auto split: if_splits)
  have q1: "q1 \<notin> S"
    using p1 by (rule place_after_kept)
  have mem: "(c1, q1) \<in> set (kids t p)"
    using k c1 by (metis nth_mem)
  have sh1: "shaped c1"
    using Cons.prems(1) mem by (rule kids_shaped)
  have P: "?P (kids t p ! k)"
    using c1 q1 by simp
  note nf = nth_filter_take [of k "kids t p" ?P, OF k P]
  let ?new = "kids (pruned S t p) p'"
  have len: "length ?new = length (filter ?P (kids t p))"
    using arg_cong [OF kids_pruned [OF Cons.prems(1), of S p p'], of length] by simp
  with nf(1) have k': "?k' < length ?new"
    by simp
  have "fst (?new ! ?k') = map fst ?new ! ?k'"
    using k' by simp
  also have "\<dots> = map (\<lambda>(c, q). pruned S c q) (filter ?P (kids t p)) ! ?k'"
    by (simp only: kids_pruned [OF Cons.prems(1)])
  also have "\<dots> = (\<lambda>(c, q). pruned S c q) (filter ?P (kids t p) ! ?k')"
    using nf(1) by simp
  also have "\<dots> = pruned S c1 q1"
    by (simp only: nf(2) c1) simp
  finally have fst: "fst (?new ! ?k') = pruned S c1 q1" .
  have "node_at (pruned S t p) p' ks' = node_at (pruned S c1 q1) (snd (?new ! ?k')) ks1"
    using k' fst by (simp add: ks')
  with Cons.IH [OF sh1 n1 p1, of "snd (?new ! ?k')"] show ?case
    by simp
qed

lemma node_at_length: "node_at t p ks = Some (c, q) \<Longrightarrow> length p \<le> length q"
proof (induction ks arbitrary: t p)
  case Nil
  then show ?case by simp
next
  case (Cons k ks)
  from Cons.prems have k: "k < length (kids t p)"
    and n: "node_at (fst (kids t p ! k)) (snd (kids t p ! k)) ks = Some (c, q)"
    by (auto split: if_splits)
  have "(fst (kids t p ! k), snd (kids t p ! k)) \<in> set (kids t p)"
    using k by simp
  then have "length p < length (snd (kids t p ! k))"
    by (rule kids_longer)
  with Cons.IH [OF n] show ?case by simp
qed

lemma place_after_short:
  "node_at t p ks = Some (c, q) \<Longrightarrow> (\<And>x. x \<in> S \<Longrightarrow> length q < length x) \<Longrightarrow>
   \<exists>ks'. place_after S t p ks = Some ks'"
proof (induction ks arbitrary: t p)
  case Nil
  then show ?case by auto
next
  case (Cons k ks)
  from Cons.prems(1) have k: "k < length (kids t p)"
    and n: "node_at (fst (kids t p ! k)) (snd (kids t p ! k)) ks = Some (c, q)"
    by (auto split: if_splits)
  from node_at_length [OF Cons.prems(1)] Cons.prems(2) have "p \<notin> S"
    by force
  with Cons.IH [OF n Cons.prems(2)] k show ?case
    by auto
qed

lemma flattenTree_kids:
  assumes "shaped t"
  shows "\<exists>pss. flattenTree t p = Inr (p # concat pss) \<and> length pss = length (kids t p) \<and>
     (\<forall>k < length (kids t p). flattenTree (fst (kids t p ! k)) (snd (kids t p ! k)) = Inr (pss ! k))"
proof (cases t)
  case (NBTTag ty nm v)
  from flattenTree_shaped [OF assms, of p] obtain ps where ps: "flattenTree t p = Inr (p # ps)"
    by blast
  show ?thesis
  proof (cases "ty = TCompound")
    case True
    with assms NBTTag obtain cs where v: "v = VTags cs"
      by (cases v) auto
    from ps NBTTag True v obtain pss where
      pss: "mapE (\<lambda>child. flattenTree child (child_path p child)) cs = Inr pss"
      and fl: "flattenTree t p = Inr (p # concat pss)"
      by (auto split: sum.splits)
    from mapE_InrD [OF pss] fl NBTTag True v show ?thesis
      by auto
  next
    case False
    show ?thesis
    proof (cases "ty = TList")
      case True
      with assms NBTTag obtain itemType items where v: "v = VList itemType items"
        by (cases v) auto
      from ps NBTTag True v obtain pss where
        pss: "mapE (\<lambda>(child, idx). flattenTree child (index_path p idx)) (indexed items) = Inr pss"
        and fl: "flattenTree t p = Inr (p # concat pss)"
        by (auto split: sum.splits)
      from mapE_InrD [OF pss] fl NBTTag True v show ?thesis
        by (auto simp: case_prod_beta)
    next
      case nl: False
      with False NBTTag show ?thesis
        by (intro exI [of _ "[]"]) simp
    qed
  qed
qed

lemma count_concat_nth: "k < length pss \<Longrightarrow> count_list (pss ! k) x \<le> count_list (concat pss) x"
proof (induction pss arbitrary: k)
  case Nil
  then show ?case by simp
next
  case (Cons ps pss)
  then show ?case
    by (cases k) (auto simp: trans_le_add2)
qed

lemma flattenTree_node_at:
  "shaped t \<Longrightarrow> node_at t p ks = Some (c, q) \<Longrightarrow> flattenTree t p = Inr ps \<Longrightarrow>
   \<exists>qs. flattenTree c q = Inr qs \<and> count_list qs x \<le> count_list ps x"
proof (induction ks arbitrary: t p ps)
  case Nil
  then show ?case by auto
next
  case (Cons k ks)
  from Cons.prems(2) have k: "k < length (kids t p)"
    and n: "node_at (fst (kids t p ! k)) (snd (kids t p ! k)) ks = Some (c, q)"
    by (auto split: if_splits)
  from flattenTree_kids [OF Cons.prems(1), of p] Cons.prems(3) obtain pss where
    ps: "ps = p # concat pss" and len: "length pss = length (kids t p)"
    and f: "flattenTree (fst (kids t p ! k)) (snd (kids t p ! k)) = Inr (pss ! k)"
    using k by auto
  have "(fst (kids t p ! k), snd (kids t p ! k)) \<in> set (kids t p)"
    using k by simp
  then have sh: "shaped (fst (kids t p ! k))"
    by (rule kids_shaped [OF Cons.prems(1)])
  from Cons.IH [OF sh n f] obtain qs where
    qs: "flattenTree c q = Inr qs" "count_list qs x \<le> count_list (pss ! k) x"
    by blast
  moreover have "count_list (pss ! k) x \<le> count_list ps x"
    using count_concat_nth [of k pss x] k len ps by simp
  ultimately show ?case
    by (meson order_trans)
qed

lemma count_heads:
  "mapE f xs = Inr pss \<Longrightarrow> (\<And>y ps. y \<in> set xs \<Longrightarrow> f y = Inr ps \<Longrightarrow> h y \<in> set ps) \<Longrightarrow>
   length (filter (\<lambda>y. h y = x) xs) \<le> count_list (concat pss) x"
proof (induction xs arbitrary: pss)
  case Nil
  then show ?case by simp
next
  case (Cons y ys)
  from Cons.prems(1) obtain ps pss' where
    y: "f y = Inr ps" and ys: "mapE f ys = Inr pss'" and pss: "pss = ps # pss'"
    by (auto split: sum.splits)
  have ih: "length (filter (\<lambda>y. h y = x) ys) \<le> count_list (concat pss') x"
    using ys Cons.prems(2) by (intro Cons.IH) auto
  have "h y \<in> set ps"
    using Cons.prems(2) [of y ps] y by simp
  then have "h y = x \<Longrightarrow> 0 < count_list ps x"
    by (metis count_list_0_iff gr0I)
  with ih show ?case
    by (auto simp: pss)
qed

lemma count_siblings:
  assumes "flattenTree (NBTTag TCompound nm (VTags cs)) p = Inr ps"
  shows "length (filter (\<lambda>c. child_path p c = x) cs) \<le> count_list ps x"
proof -
  from assms obtain pss where
    pss: "mapE (\<lambda>child. flattenTree child (child_path p child)) cs = Inr pss"
    and ps: "ps = p # concat pss"
    by (auto split: sum.splits)
  have "length (filter (\<lambda>c. child_path p c = x) cs) \<le> count_list (concat pss) x"
    using pss by (rule count_heads) (rule flattenTree_head)
  moreover have "count_list (concat pss) x \<le> count_list ps x"
    by (simp add: ps)
  ultimately show ?thesis
    by (rule order_trans)
qed

lemma count_not_distinct: "2 \<le> count_list ps x \<Longrightarrow> \<not> distinct ps"
  by (induction ps) (auto simp: count_list_0_iff split: if_splits)

lemma child_path_eq:
  "child_path p c = child_path p d \<longleftrightarrow> name_text (tag_name c) = name_text (tag_name d)"
  by (simp add: child_path_def)

lemma two_pass_filter:
  assumes "i < j" "j < length xs" "P (xs ! i)" "P (xs ! j)"
  shows "2 \<le> length (filter P xs)"
  using two_fail_filter [of i j xs "\<lambda>x. \<not> P x"] assms
    sum_length_filter_compl [of P xs] by simp

lemma duplicate_flatten:
  assumes "shaped rootTag"
    and "node_at rootTag p0 ks = Some (NBTTag TCompound nm (VTags cs), p)"
    and "i < j" and "j < length cs" and "tag_name (cs ! i) = tag_name (cs ! j)"
  shows "\<exists>ps. flattenTree rootTag p0 = Inr ps \<and>
      length (filter (\<lambda>c. name_text (tag_name c) = name_text (tag_name (cs ! i))) cs)
        \<le> count_list ps (child_path p (cs ! i)) \<and>
      2 \<le> count_list ps (child_path p (cs ! i)) \<and> \<not> distinct ps"
proof -
  let ?q = "child_path p (cs ! i)"
  let ?same = "\<lambda>c. name_text (tag_name c) = name_text (tag_name (cs ! i))"
  from flattenTree_shaped [OF assms(1), of p0] obtain ps where
    ps: "flattenTree rootTag p0 = Inr ps"
    by blast
  from flattenTree_node_at [OF assms(1,2) ps, of ?q] obtain qs where
    qs: "flattenTree (NBTTag TCompound nm (VTags cs)) p = Inr qs"
    and le: "count_list qs ?q \<le> count_list ps ?q"
    by blast
  have "length (filter (\<lambda>c. child_path p c = ?q) cs) \<le> count_list qs ?q"
    using qs by (rule count_siblings)
  then have "length (filter ?same cs) \<le> count_list qs ?q"
    by (simp add: child_path_eq)
  with le have 1: "length (filter ?same cs) \<le> count_list ps ?q"
    by simp
  have "2 \<le> length (filter ?same cs)"
    using assms(3,4) by (rule two_pass_filter) (simp_all add: assms(5))
  with 1 have 2: "2 \<le> count_list ps ?q"
    by simp
  from ps 1 2 count_not_distinct [OF 2] show ?thesis
    by blast
qed

lemma duplicate_delete_at:
  assumes "shaped rootTag"
    and "node_at rootTag ''root'' ks = Some (NBTTag TCompound nm (VTags cs), p)"
    and "i < j" and "j < length cs" and "tag_name (cs ! i) = tag_name (cs ! j)"
    and "child_path p (cs ! i) \<in> S" and "place_after S rootTag ''root'' ks = Some ks'"
  shows "deleteNodesByPaths rootTag S = Inr (pruned S rootTag ''root'')"
    and "map_option fst (node_at (pruned S rootTag ''root'') ''root'' ks') =
      Some (NBTTag TCompound nm (VTags (map (\<lambda>c. pruned S c (child_path p c))
        (filter (\<lambda>c. child_path p c \<notin> S \<and>
                     name_text (tag_name c) \<noteq> name_text (tag_name (cs ! i))) cs))))"
    and "length (filter (\<lambda>c. child_path p c \<notin> S \<and>
                     name_text (tag_name c) \<noteq> name_text (tag_name (cs ! i))) cs) + 2 \<le> length cs"
proof -
  let ?other = "\<lambda>c. name_text (tag_name c) \<noteq> name_text (tag_name (cs ! i))"
  have "''root'' \<notin> S"
    using assms(7) by (rule place_after_kept)
  with assms(1) show "deleteNodesByPaths rootTag S = Inr (pruned S rootTag ''root'')"
    by (rule deleteNodesByPaths_pruned)
  have f: "filter (\<lambda>c. child_path p c \<notin> S) cs = filter (\<lambda>c. child_path p c \<notin> S \<and> ?other c) cs"
    using assms(6) by (intro filter_cong refl) (auto simp: child_path_def)
  have "map_option fst (node_at (pruned S rootTag ''root'') ''root'' ks') =
      Some (pruned S (NBTTag TCompound nm (VTags cs)) p)"
    using assms(1,2,7) by (rule node_at_pruned)
  then show "map_option fst (node_at (pruned S rootTag ''root'') ''root'' ks') =
      Some (NBTTag TCompound nm (VTags (map (\<lambda>c. pruned S c (child_path p c))
        (filter (\<lambda>c. child_path p c \<notin> S \<and> ?other c) cs))))"
    by (simp add: f)
  have "length (filter ?other cs) + 2 \<le> length cs"
    using assms(3,4) by (rule two_fail_filter) (simp_all add: assms(5))
  moreover have "length (filter (\<lambda>c. child_path p c \<notin> S \<and> ?other c) cs) \<le> length (filter ?other cs)"
    using length_filter_le [of "\<lambda>c. child_path p c \<notin> S" "filter ?other cs"]
    by (simp add: conj_commute)
  ultimately show "length (filter (\<lambda>c. child_path p c \<notin> S \<and> ?other c) cs) + 2 \<le> length cs"
    by simp
qed

lemma place_after_single:
  assumes "node_at rootTag p0 ks = Some (c, p)"
  shows "\<exists>ks'. place_after {child_path p d} rootTag p0 ks = Some ks'"
  using assms by (rule place_after_short) (simp add: child_path_def)

section \<open>Properties of the history\<close>

lemma slice_index_neg: "0 < k \<Longrightarrow> slice_index (- int k) xs = length xs - k"
  unfolding slice_index_def Let_def by auto

lemma slice_from_50: "slice_from (- 50) xs = last_n 50 xs"
  using slice_index_neg [of 50 xs] by (simp add: slice_from_def last_n_def)

lemma slice_upto_1: "slice_upto (- 1) xs = butlast xs"
  using slice_index_neg [of 1 xs] by (simp add: slice_upto_def butlast_conv_take)

definition commit_file :: "NBTTag \<Rightarrow> NBTFile \<Rightarrow> NBTFile" where
  "commit_file r f = f\<lparr>root := r, isModified := True,
      undoStack := last_n 50 (undoStack f @ [root f]), redoStack := []\<rparr>"

definition undo_file :: "NBTFile \<Rightarrow> NBTFile" where
  "undo_file f = f\<lparr>root := last (undoStack f), undoStack := butlast (undoStack f),
      redoStack := redoStack f @ [root f], isModified := True\<rparr>"

definition redo_file :: "NBTFile \<Rightarrow> NBTFile" where
  "redo_file f = f\<lparr>root := last (redoStack f), undoStack := undoStack f @ [root f],
      redoStack := butlast (redoStack f), isModified := True\<rparr>"

lemma find_map_update:
  assumes "\<And>f. file_id (g f) = file_id f"
  shows "find (\<lambda>f. file_id f = i) (map (\<lambda>f. if file_id f = i then g f else f) xs) =
         map_option g (find (\<lambda>f. file_id f = i) xs)"
  using assms by (induction xs) auto

lemma find_file_id: "find (\<lambda>f. file_id f = i) xs = Some af \<Longrightarrow> file_id af = i"
  by (induction xs) (auto split: if_splits)

lemma activeFile_pushHistory:
  "activeFileId app = Some i \<Longrightarrow>
   activeFile (pushHistory i r app) = map_option (commit_file r) (activeFile app)"
proof -
  assume a: "activeFileId app = Some i"
  have eq: "(\<lambda>f. if file_id f \<noteq> i then f
        else (let newUndo = slice_from (- 50) (undoStack f @ [cloneTag (root f)])
              in f\<lparr>root := r, isModified := True, undoStack := newUndo, redoStack := []\<rparr>))
      = (\<lambda>f. if file_id f = i then commit_file r f else f)"
    by (auto simp: commit_file_def slice_from_50 cloneTag_id fun_eq_iff)
  show ?thesis
    using a find_map_update [of "commit_file r" i "files app"]
    by (simp add: activeFile_def pushHistory_def eq commit_file_def)
qed

lemma find_map_const:
  assumes "find (\<lambda>f. file_id f = i) xs = Some af" "file_id (g af) = i"
  shows "find (\<lambda>f. file_id f = i) (map (\<lambda>f. if file_id f = i then g af else f) xs) = Some (g af)"
  using assms by (induction xs) (auto split: if_splits)

lemma handleUndo_files:
  assumes "activeFile app = Some af" "undoStack af \<noteq> []"
  shows "handleUndo app = app\<lparr>files := map (\<lambda>f. if file_id f = file_id af
            then f\<lparr>root := last (undoStack af), undoStack := butlast (undoStack af),
                   redoStack := redoStack af @ [root af], isModified := True\<rparr>
            else f) (files app)\<rparr>"
  using assms by (simp add: handleUndo_def slice_upto_1 cloneTag_id Let_def)

lemma handleRedo_files:
  assumes "activeFile app = Some af" "redoStack af \<noteq> []"
  shows "handleRedo app = app\<lparr>files := map (\<lambda>f. if file_id f = file_id af
            then f\<lparr>root := last (redoStack af), undoStack := undoStack af @ [root af],
                   redoStack := butlast (redoStack af), isModified := True\<rparr>
            else f) (files app)\<rparr>"
  using assms by (simp add: handleRedo_def slice_upto_1 cloneTag_id Let_def)

lemma find_map_stacks:
  assumes "find (\<lambda>f. file_id f = i) xs = Some af"
  shows "find (\<lambda>f. file_id f = i)
           (map (\<lambda>f. if file_id f = i then f\<lparr>root := a, undoStack := b, redoStack := c, isModified := d\<rparr> else f) xs)
         = Some (af\<lparr>root := a, undoStack := b, redoStack := c, isModified := d\<rparr>)"
  using assms by (induction xs) (auto split: if_splits)

lemma activeFile_handleUndo:
  assumes "activeFile app = Some af" "undoStack af \<noteq> []"
  shows "activeFile (handleUndo app) = Some (undo_file af)"
proof -
  from assms(1) obtain i where i: "activeFileId app = Some i"
    and f: "find (\<lambda>f. file_id f = i) (files app) = Some af"
    by (auto simp: activeFile_def split: option.splits)
  have id: "file_id af = i" using f by (rule find_file_id)
  show ?thesis
    using find_map_stacks [OF f] i
    by (simp add: handleUndo_files [OF assms] activeFile_def id undo_file_def)
qed

lemma activeFile_handleRedo:
  assumes "activeFile app = Some af" "redoStack af \<noteq> []"
  shows "activeFile (handleRedo app) = Some (redo_file af)"
proof -
  from assms(1) obtain i where i: "activeFileId app = Some i"
    and f: "find (\<lambda>f. file_id f = i) (files app) = Some af"
    by (auto simp: activeFile_def split: option.splits)
  have id: "file_id af = i" using f by (rule find_file_id)
  show ?thesis
    using find_map_stacks [OF f] i
    by (simp add: handleRedo_files [OF assms] activeFile_def id redo_file_def)
qed

lemma last_n_snoc: "0 < n \<Longrightarrow> last (last_n n (xs @ [x])) = x \<and> last_n n (xs @ [x]) \<noteq> []"
  by (simp add: last_n_def)

lemma butlast_last_n_snoc: "0 < n \<Longrightarrow> butlast (last_n n (xs @ [x])) = last_n (n - 1) xs"
  by (auto simp: last_n_def butlast_drop Suc_diff_le)

definition bounded :: "App \<Rightarrow> bool" where
  "bounded app = list_all (\<lambda>f. length (undoStack f) + length (redoStack f) \<le> 50) (files app)"

lemma length_last_n: "length (last_n n xs) \<le> n"
  by (simp add: last_n_def)

lemma bounded_pushHistory: "bounded app \<Longrightarrow> bounded (pushHistory i r app)"
  by (auto simp: bounded_def pushHistory_def list_all_iff slice_from_50 length_last_n Let_def)

lemma bounded_updateActiveFileRoot: "bounded app \<Longrightarrow> bounded (updateActiveFileRoot r app)"
  by (auto simp: updateActiveFileRoot_def bounded_pushHistory split: option.splits)

lemma activeFile_mem: "activeFile app = Some af \<Longrightarrow> af \<in> set (files app)"
  by (auto simp: activeFile_def find_Some_iff split: option.splits)

lemma bounded_handleUndo: "bounded app \<Longrightarrow> bounded (handleUndo app)"
proof (cases "activeFile app")
  case None
  assume "bounded app"
  with None show ?thesis by (simp add: handleUndo_def)
next
  case (Some af)
  assume b: "bounded app"
  show ?thesis
  proof (cases "undoStack af = []")
    case True
    with Some b show ?thesis by (simp add: handleUndo_def)
  next
    case False
    have "length (undoStack af) + length (redoStack af) \<le> 50"
      using b activeFile_mem [OF Some] by (simp add: bounded_def list_all_iff)
    moreover have "0 < length (undoStack af)" using False by simp
    ultimately have "length (undoStack af) - Suc 0 + length (redoStack af) \<le> 49" by arith
    then show ?thesis
      using b by (auto simp: handleUndo_files [OF Some False] bounded_def list_all_iff)
  qed
qed

lemma bounded_handleRedo: "bounded app \<Longrightarrow> bounded (handleRedo app)"
proof (cases "activeFile app")
  case None
  assume "bounded app"
  with None show ?thesis by (simp add: handleRedo_def)
next
  case (Some af)
  assume b: "bounded app"
  show ?thesis
  proof (cases "redoStack af = []")
    case True
    with Some b show ?thesis by (simp add: handleRedo_def)
  next
    case False
    have "length (undoStack af) + length (redoStack af) \<le> 50"
      using b activeFile_mem [OF Some] by (simp add: bounded_def list_all_iff)
    moreover have "0 < length (redoStack af)" using False by simp
    ultimately have "length (undoStack af) + (length (redoStack af) - Suc 0) \<le> 49" by arith
    then show ?thesis
      using b by (auto simp: handleRedo_files [OF Some False] bounded_def list_all_iff)
  qed
qed

lemma bounded_step: "bounded app \<Longrightarrow> bounded (step e app)"
  by (cases e) (simp_all add: bounded_updateActiveFileRoot bounded_handleUndo bounded_handleRedo)

lemma bounded_fold: "bounded app \<Longrightarrow> bounded (fold step es app)"
  by (induction es arbitrary: app) (simp_all add: bounded_step)

lemma last_n_last_n_append: "last_n n (last_n n xs @ ys) = last_n n (xs @ ys)"
proof (cases "n \<le> length xs")
  case True
  then have "length xs - n + length ys = length xs + length ys - n" by arith
  with True show ?thesis by (simp add: last_n_def add.commute)
next
  case False
  then show ?thesis by (simp add: last_n_def)
qed

lemma last_n_id: "length xs \<le> n \<Longrightarrow> last_n n xs = xs"
  by (simp add: last_n_def)

lemma commits_undoStack:
  assumes "activeFile app = Some f" "file_id f \<noteq> []" "length (undoStack f) \<le> 50"
  shows "map_option undoStack (activeFile (fold step (map Commit rs) app)) =
         Some (last_n 50 (undoStack f @ butlast (root f # rs)))"
  using assms
proof (induction rs arbitrary: app f)
  case Nil
  then show ?case by (simp add: last_n_id)
next
  case (Cons r rs)
  from Cons.prems(1) obtain i where i: "activeFileId app = Some i"
    and fi: "find (\<lambda>f. file_id f = i) (files app) = Some f"
    by (auto simp: activeFile_def split: option.splits)
  have id: "file_id f = i" using fi by (rule find_file_id)
  let ?app = "updateActiveFileRoot r app"
  have upd: "?app = pushHistory i r app"
    using i id Cons.prems(2) by (simp add: updateActiveFileRoot_def)
  have a: "activeFile ?app = Some (commit_file r f)"
    using activeFile_pushHistory [OF i, of r] Cons.prems(1) by (simp add: upd)
  have "map_option undoStack (activeFile (fold step (map Commit rs) ?app)) =
        Some (last_n 50 (undoStack (commit_file r f) @ butlast (root (commit_file r f) # rs)))"
    by (rule Cons.IH [OF a]) (simp_all add: commit_file_def Cons.prems(2) length_last_n)
  then show ?case
    by (simp add: commit_file_def last_n_last_n_append)
qed

section \<open>Properties of the codec\<close>

lemma and_255: "(x::int) AND 255 = take_bit 8 x"
  using take_bit_eq_mask [of 8 x] by (simp add: mask_eq_exp_minus_1)

lemma and_32: "(x::int) AND 4294967295 = take_bit 32 x"
  using take_bit_eq_mask [of 32 x] by (simp add: mask_eq_exp_minus_1)

lemma byte_of_and: "(word_of_int (x AND 255) :: byte) = word_of_int x"
  by (simp add: word_of_int_eq_iff and_255)

lemma to_signed_take_bit: "0 < n \<Longrightarrow> to_signed n (take_bit n x) = to_signed n x"
  by (simp add: to_signed_def take_bit_eq_mod mod_add_left_eq)

lemma take_bit_to_signed: "0 < n \<Longrightarrow> take_bit n (to_signed n x) = take_bit n x"
proof -
  assume n: "0 < n"
  then have *: "(2::int) ^ n = 2 ^ (n - 1) * 2" by (cases n) simp_all
  have "((x + 2 ^ (n - 1)) mod 2 ^ n - 2 ^ (n - 1)) mod 2 ^ n = (x + 2 ^ (n - 1) - 2 ^ (n - 1)) mod 2 ^ n"
    by (rule mod_diff_left_eq)
  then show ?thesis by (simp add: to_signed_def take_bit_eq_mod)
qed

lemma to_signed_id:
  "0 < n \<Longrightarrow> - (2 ^ (n - 1)) \<le> x \<Longrightarrow> x < 2 ^ (n - 1) \<Longrightarrow> to_signed n x = x"
proof -
  assume n: "0 < n" and lo: "- (2 ^ (n - 1)) \<le> x" and hi: "x < 2 ^ (n - 1)"
  from n have *: "(2::int) ^ n = 2 ^ (n - 1) + 2 ^ (n - 1)" by (cases n) simp_all
  have "(x + 2 ^ (n - 1)) mod 2 ^ n = x + 2 ^ (n - 1)"
    using lo hi * by (intro mod_pos_pos_trivial) auto
  then show ?thesis by (simp add: to_signed_def)
qed

lemma to_signed_range: "0 < n \<Longrightarrow> - (2 ^ (n - 1)) \<le> to_signed n x \<and> to_signed n x < 2 ^ (n - 1)"
proof -
  assume n: "0 < n"
  then have *: "(2::int) ^ n = 2 ^ (n - 1) + 2 ^ (n - 1)" by (cases n) simp_all
  have "0 \<le> (x + 2 ^ (n - 1)) mod 2 ^ n" "(x + 2 ^ (n - 1)) mod 2 ^ n < 2 ^ n"
    by simp_all
  then show ?thesis unfolding to_signed_def using * by linarith
qed

lemma be_uint_Cons: "be_uint (b # bs) = uint b * 256 ^ length bs + be_uint bs"
proof -
  have "foldl (\<lambda>a b. a * 256 + uint b) a bs = a * 256 ^ length bs + foldl (\<lambda>a b. a * 256 + uint b) 0 bs" for a
  proof (induction bs arbitrary: a)
    case Nil
    then show ?case by simp
  next
    case (Cons c cs)
    show ?case
      using Cons.IH [of "a * 256 + uint c"] Cons.IH [of "uint c"]
      by (simp add: algebra_simps)
  qed
  from this [of "uint b"] show ?thesis by (simp add: be_uint_def)
qed

lemma be_bytes_Suc: "be_bytes (Suc n) x = word_of_int (drop_bit (8 * n) x) # be_bytes n x"
proof -
  have "[0..<Suc n] = 0 # map Suc [0..<n]"
    by (simp add: upt_conv_Cons map_Suc_upt del: upt_Suc)
  then show ?thesis
    by (simp add: be_bytes_def comp_def del: upt_Suc)
qed

lemma length_be_bytes [simp]: "length (be_bytes n x) = n"
  by (simp add: be_bytes_def)

lemma be_uint_be_bytes: "be_uint (be_bytes n x) = take_bit (8 * n) x"
proof (induction n)
  case 0
  then show ?case by (simp add: be_bytes_def be_uint_def)
next
  case (Suc n)
  have "drop_bit (8 * n) (take_bit (8 * n + 8) x) = take_bit 8 (drop_bit (8 * n) x)"
    by (simp add: drop_bit_take_bit)
  with bits_ident [of "8 * n" "take_bit (8 * n + 8) x"]
  have "take_bit (8 * n + 8) x = push_bit (8 * n) (take_bit 8 (drop_bit (8 * n) x)) + take_bit (8 * n) x"
    by (simp add: min_def)
  moreover have "(256::int) ^ n = 2 ^ (8 * n)"
    by (simp add: power_mult)
  moreover have "uint (word_of_int (drop_bit (8 * n) x) :: byte) = take_bit 8 (drop_bit (8 * n) x)"
    by (simp add: uint_word_of_int_eq)
  moreover have "be_uint (be_bytes (Suc n) x) =
      uint (word_of_int (drop_bit (8 * n) x) :: byte) * 256 ^ n + be_uint (be_bytes n x)"
    by (simp add: be_bytes_Suc be_uint_Cons)
  moreover have "8 * Suc n = 8 * n + 8" by simp
  ultimately show ?case
    by (simp only: Suc.IH push_bit_eq_mult mult.commute add.commute)
qed

lemma writeByte_be: "writeByte b = be_bytes 1 (toInt32 b)"
  by (simp add: writeByte_def be_bytes_def byte_of_and)

lemma writeShort_be: "writeShort s = be_bytes 2 (toInt32 s)"
  by (simp add: writeShort_def be_bytes_def byte_of_and upt_rec)

lemma writeInt_be: "writeInt i = be_bytes 4 (toInt32 i)"
  by (simp add: writeInt_def be_bytes_def byte_of_and upt_rec)

lemma writeByte_uint [simp]: "writeByte (uint (b::byte)) = [b]"
proof -
  have "take_bit 8 (toInt32 (uint b)) = take_bit 8 (uint b)"
    using take_bit_to_signed [of 32 "uint b"] take_bit_take_bit [of 8 32 "toInt32 (uint b)"]
      take_bit_take_bit [of 8 32 "uint b"]
    by (simp add: toInt32_def min_def)
  then have "(word_of_int (toInt32 (uint b)) :: byte) = word_of_int (uint b)"
    by (subst word_of_int_eq_iff) simp
  then show ?thesis
    by (simp add: writeByte_def byte_of_and)
qed

lemma concat_writeByte_uint [simp]: "concat (map (\<lambda>b. writeByte (uint b)) (bs :: byte list)) = bs"
  by (induction bs) simp_all

lemma length_writers [simp]:
  "length (writeByte b) = 1" "length (writeShort s) = 2" "length (writeInt i) = 4"
  "length (writeLong l) = 8" "length (writeFloat P f) = 4" "length (writeDouble d) = 8"
  by (simp_all add: writeByte_def writeShort_def writeInt_def writeLong_def writeFloat_def
      writeDouble_def Let_def)

lemma view_at: "length bs = n \<Longrightarrow> view (pre @ bs @ rest) (length pre) n = Inr bs"
  by (simp add: view_def)

lemma getInt32_writeInt: "getInt32 (pre @ writeInt i @ rest) (length pre) = Inr (toInt32 i)"
proof -
  have "to_signed 32 (be_uint (writeInt i)) = toInt32 i"
    using to_signed_take_bit [of 32 "toInt32 i"] to_signed_range [of 32 i]
    by (simp add: writeInt_be be_uint_be_bytes toInt32_def to_signed_id)
  then show ?thesis
    by (simp add: getInt32_def view_at)
qed

lemma toInt32_id: "- (2 ^ 31) \<le> x \<Longrightarrow> x < 2 ^ 31 \<Longrightarrow> toInt32 x = x"
  using to_signed_id [of 32 x] by (simp add: toInt32_def)

lemma number_of_bigint_id: "\<bar>b\<bar> \<le> 2 ^ 53 \<Longrightarrow> number_of_bigint b = b"
  by (simp add: number_of_bigint_def)

lemma drop_bit_32_range:
  assumes "- (2 ^ 63) \<le> (v::int)" "v < 2 ^ 63"
  shows "- (2 ^ 31) \<le> drop_bit 32 v" "drop_bit 32 v < 2 ^ 31"
proof -
  have "(- (2 ^ 63)) div 2 ^ 32 \<le> v div (2 ^ 32 :: int)"
    using assms(1) by (intro zdiv_mono1) simp_all
  then show "- (2 ^ 31) \<le> drop_bit 32 v"
    by (simp add: drop_bit_eq_div)
  have "v div (2 ^ 32 :: int) \<le> (2 ^ 63 - 1) div 2 ^ 32"
    using assms(2) by (intro zdiv_mono1) simp_all
  then show "drop_bit 32 v < 2 ^ 31"
    by (simp add: drop_bit_eq_div)
qed

lemma parseLong_writeLong:
  assumes "- (2 ^ 63) \<le> v" "v < 2 ^ 63"
  shows "parseLong (pre @ writeLong v @ rest) (length pre) = Inr v"
proof -
  let ?h = "drop_bit 32 v" and ?l = "take_bit 32 v"
  note hr = drop_bit_32_range [OF assms]
  have h: "number_of_bigint ?h = ?h"
    using hr by (intro number_of_bigint_id) (simp add: abs_le_iff)
  have lr: "0 \<le> ?l" "?l < 2 ^ 32"
    using take_bit_int_less_exp [of 32 v] by simp_all
  have l: "number_of_bigint ?l = ?l"
    using lr by (intro number_of_bigint_id) (simp add: abs_le_iff)
  have w: "writeLong v = writeInt ?h @ writeInt ?l"
    by (simp add: writeLong_def and_32 h l)
  have g1: "getInt32 (pre @ writeLong v @ rest) (length pre) = Inr (toInt32 ?h)"
    using getInt32_writeInt [of pre ?h "writeInt ?l @ rest"] by (simp add: w)
  have g2: "getInt32 (pre @ writeLong v @ rest) (length pre + 4) = Inr (toInt32 ?l)"
    using getInt32_writeInt [of "pre @ writeInt ?h" ?l rest] by (simp add: w)
  have th: "toInt32 ?h = ?h"
    using hr by (rule toInt32_id)
  have tl: "take_bit 32 (toInt32 ?l) = ?l"
    using take_bit_to_signed [of 32 ?l] by (simp add: toInt32_def)
  have "push_bit 32 ?h OR ?l = concat_bit 32 v ?h"
    by (simp add: concat_bit_def or.commute)
  also have "\<dots> = ?l + push_bit 32 ?h"
    by (rule concat_bit_eq)
  also have "\<dots> = v"
    using bits_ident [of 32 v] by simp
  finally show ?thesis
    by (simp add: parseLong_def g1 g2 th and_32 tl)
qed

lemma readString_ungzip: "readString (P\<lparr>ungzip := u\<rparr>) buf off = readString P buf off"
  by (simp add: readString_def Let_def split: sum.splits)

lemma readFlat_ungzip: "readFlat (P\<lparr>ungzip := u\<rparr>) buf off ty = readFlat P buf off ty"
  by (cases ty) (simp_all add: readFlat_def getFloat32_def readString_ungzip)

lemma readName_ungzip: "readName (P\<lparr>ungzip := u\<rparr>) buf off r ft fn = readName P buf off r ft fn"
  by (simp add: readName_def readString_ungzip)

lemma reader_ungzip:
  "readTag (P\<lparr>ungzip := u\<rparr>) fuel buf off r ft fn = readTag P fuel buf off r ft fn \<and>
   readListItems (P\<lparr>ungzip := u\<rparr>) fuel buf off ty n = readListItems P fuel buf off ty n \<and>
   readCompoundItems (P\<lparr>ungzip := u\<rparr>) fuel buf off = readCompoundItems P fuel buf off"
proof (induction fuel arbitrary: buf off r ft fn ty n)
  case 0
  then show ?case by simp
next
  case (Suc fuel)
  then show ?case
    by (simp add: readFlat_ungzip readName_ungzip cong: if_cong sum.case_cong)
qed


lemma flag_of_result:
  "map_option (map_sum (\<lambda>e. e) (\<lambda>(t, off). (t, b))) r = Some (Inr (t, c)) \<Longrightarrow> c = b"
  by (cases r) (auto simp: map_sum_def split: sum.splits)

lemma xp_decode: "decode ascii_platform 3 xp_bytes = Some (Inr (xp_root, 18))"
  by code_simp

lemma xp_encode: "NBTWriter_write ascii_platform xp_root False = Inr xp_bytes"
  by code_simp

subsection \<open>Reading back what was written\<close>

lemma take_bit_toInt32: "n \<le> 32 \<Longrightarrow> take_bit n (toInt32 x) = take_bit n x"
proof -
  assume n: "n \<le> 32"
  have "take_bit n (take_bit 32 (toInt32 x)) = take_bit n (take_bit 32 x)"
    using take_bit_to_signed [of 32 x] by (simp add: toInt32_def)
  with n show ?thesis by (simp add: min_def)
qed

lemma in_bits_to_signed: "0 < n \<Longrightarrow> in_bits n x \<Longrightarrow> to_signed n x = x"
  by (simp add: in_bits_def to_signed_id)

lemma be_uint_writeByte: "be_uint (writeByte b) = take_bit 8 b"
  by (simp add: writeByte_be be_uint_be_bytes take_bit_toInt32)

lemma be_uint_writeShort: "be_uint (writeShort b) = take_bit 16 b"
  by (simp add: writeShort_be be_uint_be_bytes take_bit_toInt32)

lemma be_uint_writeInt: "be_uint (writeInt b) = take_bit 32 b"
  by (simp add: writeInt_be be_uint_be_bytes take_bit_toInt32)

lemma getUint8_writeByte:
  "0 \<le> b \<Longrightarrow> b < 256 \<Longrightarrow> getUint8 (pre @ writeByte b @ rest) (length pre) = Inr b"
  by (simp add: getUint8_def view_at be_uint_writeByte take_bit_int_eq_self)

lemma getInt8_writeByte:
  "in_bits 8 n \<Longrightarrow> getInt8 (pre @ writeByte n @ rest) (length pre) = Inr n"
  by (simp add: getInt8_def view_at be_uint_writeByte to_signed_take_bit in_bits_to_signed)

lemma getUint16_writeShort:
  "0 \<le> n \<Longrightarrow> n < 65536 \<Longrightarrow> getUint16 (pre @ writeShort n @ rest) (length pre) = Inr n"
  by (simp add: getUint16_def view_at be_uint_writeShort take_bit_int_eq_self)

lemma getInt16_writeShort:
  "in_bits 16 n \<Longrightarrow> getInt16 (pre @ writeShort n @ rest) (length pre) = Inr n"
  by (simp add: getInt16_def view_at be_uint_writeShort to_signed_take_bit in_bits_to_signed)

lemma getInt32_writeInt_id:
  "in_bits 32 n \<Longrightarrow> getInt32 (pre @ writeInt n @ rest) (length pre) = Inr n"
  by (simp add: getInt32_def view_at be_uint_writeInt to_signed_take_bit in_bits_to_signed)

lemma getInt32_length:
  "length xs < 2 ^ 31 \<Longrightarrow>
   getInt32 (pre @ writeInt (int (length xs)) @ rest) (length pre) = Inr (int (length xs))"
  by (rule getInt32_writeInt_id) (simp add: in_bits_def)

lemma parseLong_writeLong_id:
  "in_bits 64 v \<Longrightarrow> parseLong (pre @ writeLong v @ rest) (length pre) = Inr v"
  by (rule parseLong_writeLong) (simp_all add: in_bits_def)

lemma writeFloat_eq: "writeFloat P f = be_bytes 4 (uint (float32_of_number P f))"
  by (simp add: writeFloat_def)

lemma writeDouble_eq: "writeDouble d = be_bytes 8 (uint d)"
  by (simp add: writeDouble_def)

lemma getFloat32_writeFloat:
  "getFloat32 P (pre @ writeFloat P f @ rest) (length pre) =
     Inr (number_of_float32 P (float32_of_number P f))"
proof -
  have "take_bit 32 (uint (float32_of_number P f)) = uint (float32_of_number P f)"
    by (simp add: take_bit_int_eq_self_iff uint_lt2p [where 'a = 32, simplified])
  then show ?thesis
    by (simp add: getFloat32_def view_at writeFloat_eq be_uint_be_bytes)
qed

lemma getFloat64_writeDouble:
  "getFloat64 (pre @ writeDouble d @ rest) (length pre) = Inr d"
proof -
  have "take_bit 64 (uint d) = uint d"
    by (simp add: take_bit_int_eq_self_iff uint_lt2p [where 'a = 64, simplified])
  then show ?thesis
    by (simp add: getFloat64_def view_at writeDouble_eq be_uint_be_bytes)
qed

lemma length_writeString: "length (writeString P s) = 2 + length (utf8_encode P s)"
  by (simp add: writeString_def Let_def)

lemma readString_writeString:
  assumes "text_ok P s"
  shows "readString P (pre @ writeString P s @ rest) (length pre) =
         Inr (s, length pre + length (writeString P s))"
proof -
  let ?bs = "utf8_encode P s"
  have len: "length ?bs < 65536" and dec: "utf8_decode P ?bs = s"
    using assms by (simp_all add: text_ok_def)
  have g: "getUint16 (pre @ writeString P s @ rest) (length pre) = Inr (int (length ?bs))"
    using getUint16_writeShort [of "int (length ?bs)" pre "?bs @ rest"] len
    by (simp add: writeString_def Let_def)
  have v: "view (pre @ writeString P s @ rest) (Suc (Suc (length pre))) (length ?bs) = Inr ?bs"
    using view_at [of ?bs "length ?bs" "pre @ writeShort (int (length ?bs))" rest]
    by (simp add: writeString_def Let_def)
  show ?thesis
    by (simp add: readString_def g v dec length_writeString Let_def)
qed

lemma sint_writeByte: "in_bits 8 x \<Longrightarrow> map sint (writeByte x) = [x]"
proof -
  assume x: "in_bits 8 x"
  have "sint (word_of_int x :: byte) = signed_take_bit 7 x"
    by (simp add: sint_sbintrunc')
  also have "\<dots> = x"
    using x by (intro signed_take_bit_int_eq_self) (simp_all add: in_bits_def)
  finally have "sint (word_of_int x :: byte) = x" .
  moreover have "(word_of_int (toInt32 x) :: byte) = word_of_int x"
    by (subst word_of_int_eq_iff) (simp add: take_bit_toInt32)
  ultimately show ?thesis
    by (simp add: writeByte_def byte_of_and)
qed

lemma sint_bytes: "list_all (in_bits 8) xs \<Longrightarrow> map sint (concat (map writeByte xs)) = xs"
  by (induction xs) (simp_all add: sint_writeByte)

lemma length_concat_writeByte [simp]: "length (concat (map writeByte xs)) = length xs"
  by (induction xs) simp_all

lemma length_concat_writeInt [simp]: "length (concat (map writeInt xs)) = 4 * length xs"
  by (induction xs) simp_all

lemma length_concat_writeLong [simp]: "length (concat (map writeLong xs)) = 8 * length xs"
  by (induction xs) simp_all

lemma readInts_writeInts:
  "list_all (in_bits 32) xs \<Longrightarrow>
   readInts (pre @ concat (map writeInt xs) @ rest) (length pre) (length xs) =
     Inr (xs, length pre + 4 * length xs)"
proof (induction xs arbitrary: pre)
  case Nil
  then show ?case by simp
next
  case (Cons x xs)
  have g: "getInt32 (pre @ writeInt x @ concat (map writeInt xs) @ rest) (length pre) = Inr x"
    using getInt32_writeInt_id [of x pre "concat (map writeInt xs) @ rest"] Cons.prems by simp
  have "readInts ((pre @ writeInt x) @ concat (map writeInt xs) @ rest) (length (pre @ writeInt x)) (length xs) =
      Inr (xs, length (pre @ writeInt x) + 4 * length xs)"
    using Cons.prems by (intro Cons.IH) simp
  then show ?case
    by (simp add: g)
qed

lemma readLongs_writeLongs:
  "list_all (in_bits 64) xs \<Longrightarrow>
   readLongs (pre @ concat (map writeLong xs) @ rest) (length pre) (length xs) =
     Inr (xs, length pre + 8 * length xs)"
proof (induction xs arbitrary: pre)
  case Nil
  then show ?case by simp
next
  case (Cons x xs)
  have g: "parseLong (pre @ writeLong x @ concat (map writeLong xs) @ rest) (length pre) = Inr x"
    using parseLong_writeLong_id [of x pre "concat (map writeLong xs) @ rest"] Cons.prems by simp
  have "readLongs ((pre @ writeLong x) @ concat (map writeLong xs) @ rest) (length (pre @ writeLong x)) (length xs) =
      Inr (xs, length (pre @ writeLong x) + 8 * length xs)"
    using Cons.prems by (intro Cons.IH) simp
  then show ?case
    by (simp add: g)
qed

lemma byte_of_TagType_range: "listed ty \<Longrightarrow> 0 \<le> byte_of_TagType ty \<and> byte_of_TagType ty < 256"
  by (cases ty) (simp_all add: listed_def)

lemma TagType_of_byte_of: "listed ty \<Longrightarrow> TagType_of_byte (byte_of_TagType ty) = ty"
  by (cases ty) (simp_all add: listed_def TagType_of_byte_def)

lemma wf_payload_listed: "wf_payload P t \<Longrightarrow> listed (tag_type t)"
  by (cases t) (auto simp: listed_def split: TagType.splits)

lemma getUint8_type:
  "listed ty \<Longrightarrow>
   getUint8 (pre @ writeByte (byte_of_TagType ty) @ rest) (length pre) = Inr (byte_of_TagType ty)"
  using byte_of_TagType_range [of ty] by (simp add: getUint8_writeByte)

lemma readType_written:
  "listed ty \<Longrightarrow>
   readType (pre @ writeByte (byte_of_TagType ty) @ rest) (length pre) None = Inr (ty, length pre + 1)"
  by (simp add: readType_def getUint8_type TagType_of_byte_of)

lemma readName_written:
  "text_ok P s \<Longrightarrow>
   readName P (pre @ writeString P s @ rest) (length pre) r None None =
     Inr (Some s, length pre + length (writeString P s))"
  by (simp add: readName_def readString_writeString)

lemma readFlat_writeFlat:
  assumes "wf_payload P (NBTTag ty nm v)" and "ty \<noteq> TList" and "ty \<noteq> TCompound" and "ty \<noteq> TEnd"
    and "writeFlat P ty v = Inr enc"
  shows "readFlat P (pre @ enc @ rest) (length pre) ty = Inr (v, length pre + length enc)"
proof (cases ty)
  case TByte
  with assms show ?thesis
    by (cases v) (auto simp: readFlat_def writeFlat_def getInt8_writeByte)
next
  case TShort
  with assms show ?thesis
    by (cases v) (auto simp: readFlat_def writeFlat_def getInt16_writeShort)
next
  case TInt
  with assms show ?thesis
    by (cases v) (auto simp: readFlat_def writeFlat_def getInt32_writeInt_id)
next
  case TLong
  with assms show ?thesis
    by (cases v) (auto simp: readFlat_def writeFlat_def parseLong_writeLong_id)
next
  case TFloat
  with assms show ?thesis
    by (cases v) (auto simp: readFlat_def writeFlat_def getFloat32_writeFloat)
next
  case TDouble
  with assms show ?thesis
    by (cases v) (auto simp: readFlat_def writeFlat_def getFloat64_writeDouble)
next
  case TByteArray
  with assms obtain xs where v: "v = VNumbers xs" and len: "length xs < 2 ^ 31"
    and xs: "list_all (in_bits 8) xs"
    and enc: "enc = writeInt (int (length xs)) @ concat (map writeByte xs)"
    by (cases v) (auto simp: writeFlat_def)
  have g: "getInt32 (pre @ writeInt (int (length xs)) @ concat (map writeByte xs) @ rest) (length pre) =
      Inr (int (length xs))"
    using len by (rule getInt32_length)
  have w: "view (pre @ writeInt (int (length xs)) @ concat (map writeByte xs) @ rest) (length pre + 4) (length xs) =
      Inr (concat (map writeByte xs))"
    using view_at [of "concat (map writeByte xs)" "length xs" "pre @ writeInt (int (length xs))" rest]
    by simp
  show ?thesis
    by (simp add: TByteArray v enc readFlat_def g w sint_bytes [OF xs] Let_def)
next
  case TString
  with assms show ?thesis
    by (cases v) (auto simp: readFlat_def writeFlat_def readString_writeString)
next
  case TIntArray
  with assms obtain xs where v: "v = VNumbers xs" and len: "length xs < 2 ^ 31"
    and xs: "list_all (in_bits 32) xs"
    and enc: "enc = writeInt (int (length xs)) @ concat (map writeInt xs)"
    by (cases v) (auto simp: writeFlat_def)
  have g: "getInt32 (pre @ writeInt (int (length xs)) @ concat (map writeInt xs) @ rest) (length pre) =
      Inr (int (length xs))"
    using len by (rule getInt32_length)
  have r: "readInts (pre @ writeInt (int (length xs)) @ concat (map writeInt xs) @ rest) (length pre + 4) (length xs) =
      Inr (xs, length pre + 4 + 4 * length xs)"
    using readInts_writeInts [OF xs, of "pre @ writeInt (int (length xs))" rest] by simp
  show ?thesis
    by (simp add: TIntArray v enc readFlat_def g r)
next
  case TLongArray
  with assms obtain xs where v: "v = VBigInts xs" and len: "length xs < 2 ^ 31"
    and xs: "list_all (in_bits 64) xs"
    and enc: "enc = writeInt (int (length xs)) @ concat (map writeLong xs)"
    by (cases v) (auto simp: writeFlat_def)
  have g: "getInt32 (pre @ writeInt (int (length xs)) @ concat (map writeLong xs) @ rest) (length pre) =
      Inr (int (length xs))"
    using len by (rule getInt32_length)
  have r: "readLongs (pre @ writeInt (int (length xs)) @ concat (map writeLong xs) @ rest) (length pre + 4) (length xs) =
      Inr (xs, length pre + 4 + 8 * length xs)"
    using readLongs_writeLongs [OF xs, of "pre @ writeInt (int (length xs))" rest] by simp
  show ?thesis
    by (simp add: TLongArray v enc readFlat_def g r)
qed (use assms in simp_all)

text \<open>The part of \<open>readTag\<close> after the kind and the name: the \<open>switch\<close> and the result.\<close>

definition readBody ::
  "platform \<Rightarrow> nat \<Rightarrow> byte list \<Rightarrow> nat \<Rightarrow> TagType \<Rightarrow> string option \<Rightarrow> NBTTag reading" where
  "readBody P fuel buf off ty name =
     bindR
       (if ty = TList then
          bindR (Some (map_sum (\<lambda>e. e) (\<lambda>b. (TagType_of_byte b, off + 1)) (getUint8 buf off)))
            (\<lambda>itemType off.
               bindR (Some (map_sum (\<lambda>e. e) (\<lambda>n. (n, off + 4)) (getInt32 buf off)))
                 (\<lambda>listLen off.
                    bindR (readListItems P fuel buf off itemType (nat listLen))
                      (\<lambda>items off. Some (Inr (VList itemType items, off)))))
        else if ty = TCompound then
          bindR (readCompoundItems P fuel buf off) (\<lambda>cs off. Some (Inr (VTags cs, off)))
        else Some (readFlat P buf off ty))
       (\<lambda>v off. Some (Inr (NBTTag ty name v, off)))"

lemma bindR_simps [simp]:
  "bindR None k = None"
  "bindR (Some (Inl e)) k = Some (Inl e)"
  "bindR (Some (Inr (x, off))) k = k x off"
  by (simp_all add: bindR_def)

lemma readTag_Suc:
  "readTag P (Suc fuel) buf off isRoot forcedType forcedName =
     bindR (Some (readType buf off forcedType)) (\<lambda>ty off.
       if ty = TEnd then Some (Inr (NBTTag ty None VNull, off))
       else bindR (Some (readName P buf off isRoot forcedType forcedName))
              (\<lambda>name off. readBody P fuel buf off ty name))"
  unfolding readBody_def by (rule readTag.simps)

text \<open>
  What the induction over a tree carries: the bytes written for an element of a List, and
  for a child of a Compound, are read back as that tag, wherever they stand in a buffer.
\<close>

definition item_ok :: "platform \<Rightarrow> TagType \<Rightarrow> NBTTag \<Rightarrow> byte list \<Rightarrow> bool" where
  "item_ok P ty item bs =
     (\<forall>pre rest fuel. tag_fuel item \<le> fuel \<longrightarrow>
        readTag P fuel (pre @ bs @ rest) (length pre) False (Some ty) None =
          Some (Inr (item, length pre + length bs)))"

definition child_ok :: "platform \<Rightarrow> NBTTag \<Rightarrow> byte list \<Rightarrow> bool" where
  "child_ok P child bs =
     (\<forall>pre rest.
        (\<exists>b. getUint8 (pre @ bs @ rest) (length pre) = Inr b \<and> TagType_of_byte b \<noteq> TEnd) \<and>
        (\<forall>fuel isRoot. tag_fuel child \<le> fuel \<longrightarrow>
           readTag P fuel (pre @ bs @ rest) (length pre) isRoot None None =
             Some (Inr (child, length pre + length bs))))"

lemma items_rt:
  assumes "list_all2 (item_ok P ty) items bss"
    and "Suc (sum_list (map (\<lambda>item. Suc (tag_fuel item)) items)) \<le> fuel"
  shows "readListItems P fuel (pre @ concat bss @ rest) (length pre) ty (length items) =
         Some (Inr (items, length pre + length (concat bss)))"
  using assms
proof (induction items bss arbitrary: pre fuel rule: list_all2_induct)
  case Nil
  then obtain f where "fuel = Suc f" by (cases fuel) auto
  then show ?case by simp
next
  case (Cons item items bs bss)
  from Cons.prems obtain f where f: "fuel = Suc f" and f1: "tag_fuel item \<le> f"
    and f2: "Suc (sum_list (map (\<lambda>item. Suc (tag_fuel item)) items)) \<le> f"
    by (cases fuel) auto
  have 1: "readTag P f (pre @ bs @ concat bss @ rest) (length pre) False (Some ty) None =
      Some (Inr (item, length pre + length bs))"
    using Cons.hyps(1) f1 unfolding item_ok_def by blast
  have 2: "readListItems P f ((pre @ bs) @ concat bss @ rest) (length (pre @ bs)) ty (length items) =
      Some (Inr (items, length (pre @ bs) + length (concat bss)))"
    using f2 by (rule Cons.IH)
  show ?case
    using 1 2 by (simp add: f)
qed

lemma length_writeByte_type [simp]: "length (writeByte b) = Suc 0"
  by (simp add: writeByte_def)

lemma children_rt:
  assumes "list_all2 (child_ok P) cs bss"
    and "Suc (sum_list (map (\<lambda>c. Suc (tag_fuel c)) cs)) \<le> fuel"
  shows "readCompoundItems P fuel (pre @ concat bss @ writeByte (byte_of_TagType TEnd) @ rest) (length pre) =
         Some (Inr (cs, length pre + length (concat bss) + 1))"
  using assms
proof (induction cs bss arbitrary: pre fuel rule: list_all2_induct)
  case Nil
  then obtain f where f: "fuel = Suc f" by (cases fuel) auto
  have "getUint8 (pre @ writeByte (byte_of_TagType TEnd) @ rest) (length pre) = Inr 0"
    using getUint8_type [of TEnd pre rest] by (simp add: listed_def)
  then show ?case
    by (simp add: f TagType_of_byte_def)
next
  case (Cons c cs bs bss)
  let ?tail = "concat bss @ writeByte (byte_of_TagType TEnd) @ rest"
  from Cons.prems obtain f where f: "fuel = Suc f" and f1: "tag_fuel c \<le> f"
    and f2: "Suc (sum_list (map (\<lambda>c. Suc (tag_fuel c)) cs)) \<le> f"
    by (cases fuel) auto
  from Cons.hyps(1) obtain b where
    b: "getUint8 (pre @ bs @ ?tail) (length pre) = Inr b" "TagType_of_byte b \<noteq> TEnd"
    unfolding child_ok_def by blast
  have 1: "readTag P f (pre @ bs @ ?tail) (length pre) False None None =
      Some (Inr (c, length pre + length bs))"
    using Cons.hyps(1) f1 unfolding child_ok_def by blast
  have 2: "readCompoundItems P f ((pre @ bs) @ ?tail) (length (pre @ bs)) =
      Some (Inr (cs, length (pre @ bs) + length (concat bss) + 1))"
    using f2 by (rule Cons.IH)
  show ?case
    using b 1 2 by (simp add: f)
qed

lemma mapE_list_all2: "mapE f xs = Inr ys \<Longrightarrow> list_all2 (\<lambda>x y. f x = Inr y) xs ys"
proof (induction xs arbitrary: ys)
  case Nil
  then show ?case by simp
next
  case (Cons x xs)
  then show ?case by (auto split: sum.splits)
qed

declare readTag.simps(2) [simp del]

definition body_ok :: "platform \<Rightarrow> NBTTag \<Rightarrow> bool" where
  "body_ok P t =
     (\<forall>enc fuel pre rest nm.
        tag_type t \<noteq> TEnd \<longrightarrow> writeTag P t False True = Inr enc \<longrightarrow> tag_fuel t \<le> Suc fuel \<longrightarrow>
        readBody P fuel (pre @ enc @ rest) (length pre) (tag_type t) nm =
          Some (Inr (NBTTag (tag_type t) nm (tag_value t), length pre + length enc)))"

lemma writeTag_header:
  "writeTag P t isRoot False =
     (case writeTag P t False True of
        Inl e \<Rightarrow> Inl e
      | Inr pay \<Rightarrow>
          Inr (writeByte (byte_of_TagType (tag_type t)) @
               (if isRoot \<or> tag_name t \<noteq> None
                then writeString P (case tag_name t of None \<Rightarrow> [] | Some s \<Rightarrow> s) else []) @ pay))"
  by (cases t) (auto simp: Let_def split: sum.split nbt_value.split)

lemma body_okD:
  "body_ok P t \<Longrightarrow> tag_type t \<noteq> TEnd \<Longrightarrow> writeTag P t False True = Inr enc \<Longrightarrow>
   tag_fuel t \<le> Suc fuel \<Longrightarrow>
   readBody P fuel (pre @ enc @ rest) (length pre) (tag_type t) nm =
     Some (Inr (NBTTag (tag_type t) nm (tag_value t), length pre + length enc))"
  by (simp add: body_ok_def)

lemma tag_fuel_pos: "0 < tag_fuel t"
  by (cases t) (auto split: nbt_value.splits)

lemma item_from_body:
  assumes "body_ok P item" and "wf_payload P item" and "tag_name item = None"
    and "tag_type item = ty" and "writeTag P item False True = Inr bs"
  shows "item_ok P ty item bs"
  unfolding item_ok_def
proof (intro allI impI)
  fix pre rest fuel
  assume "tag_fuel item \<le> fuel"
  with tag_fuel_pos [of item] obtain f where f: "fuel = Suc f" "tag_fuel item \<le> Suc f"
    by (cases fuel) auto
  obtain v where item: "item = NBTTag ty None v"
    using assms(3,4) by (cases item) auto
  show "readTag P fuel (pre @ bs @ rest) (length pre) False (Some ty) None =
        Some (Inr (item, length pre + length bs))"
  proof (cases "ty = TEnd")
    case True
    with assms(2,5) item have "v = VNull" "bs = []"
      by (auto simp: writeFlat_def)
    with True item f show ?thesis
      by (simp add: readTag_Suc readType_def)
  next
    case False
    have "readBody P f (pre @ bs @ rest) (length pre) ty None =
        Some (Inr (NBTTag ty None v, length pre + length bs))"
      using body_okD [OF assms(1) _ assms(5) f(2), of pre rest None] False item by simp
    with False item f show ?thesis
      by (simp add: readTag_Suc readType_def readName_def)
  qed
qed

lemma child_from_body:
  assumes "body_ok P c" and "wf_payload P c" and "named_ok P c"
    and "writeTag P c r False = Inr bs"
  shows "child_ok P c bs"
proof -
  obtain ty s v where c: "c = NBTTag ty (Some s) v" and ty: "ty \<noteq> TEnd" and s: "text_ok P s"
    using assms(3) by (cases c) (auto simp: named_ok_def split: option.splits)
  have l: "listed ty"
    using wf_payload_listed [OF assms(2)] c by simp
  from assms(4) obtain pay where pay: "writeTag P c False True = Inr pay"
    and bs: "bs = writeByte (byte_of_TagType ty) @ writeString P s @ pay"
    unfolding writeTag_header [of P c r] using c by (auto split: sum.splits)
  show ?thesis
    unfolding child_ok_def
  proof (intro allI conjI impI)
    fix pre rest
    have "getUint8 (pre @ bs @ rest) (length pre) = Inr (byte_of_TagType ty)"
      using getUint8_type [OF l, of pre "writeString P s @ pay @ rest"] by (simp add: bs)
    moreover have "TagType_of_byte (byte_of_TagType ty) \<noteq> TEnd"
      using ty l by (simp add: TagType_of_byte_of)
    ultimately show "\<exists>b. getUint8 (pre @ bs @ rest) (length pre) = Inr b \<and> TagType_of_byte b \<noteq> TEnd"
      by blast
  next
    fix pre rest fuel isRoot
    assume "tag_fuel c \<le> fuel"
    with tag_fuel_pos [of c] obtain f where f: "fuel = Suc f" "tag_fuel c \<le> Suc f"
      by (cases fuel) auto
    let ?buf = "pre @ writeByte (byte_of_TagType ty) @ writeString P s @ pay @ rest"
    have 1: "readType ?buf (length pre) None = Inr (ty, Suc (length pre))"
      using readType_written [OF l, of pre "writeString P s @ pay @ rest"] by simp
    have 2: "readName P ?buf (Suc (length pre)) isRoot None None =
        Inr (Some s, Suc (length pre + length (writeString P s)))"
      using readName_written [OF s, of "pre @ writeByte (byte_of_TagType ty)" "pay @ rest" isRoot]
      by simp
    have 3: "readBody P f ?buf (Suc (length pre + length (writeString P s))) ty (Some s) =
        Some (Inr (NBTTag ty (Some s) v, Suc (length pre + (length (writeString P s) + length pay))))"
      using body_okD [OF assms(1) _ pay f(2), of "pre @ writeByte (byte_of_TagType ty) @ writeString P s" rest "Some s"]
        ty c by simp
    have "readTag P (Suc f) ?buf (length pre) isRoot None None =
        Some (Inr (NBTTag ty (Some s) v, Suc (length pre + (length (writeString P s) + length pay))))"
      using ty by (simp add: readTag_Suc 1 2 3)
    then show "readTag P fuel (pre @ bs @ rest) (length pre) isRoot None None =
        Some (Inr (c, length pre + length bs))"
      by (simp add: f(1) bs c)
  qed
qed

lemma wf_payload_body_ok: "wf_payload P t \<Longrightarrow> body_ok P t"
proof (induction t)
  case (NBTTag ty tn v)
  show ?case
    unfolding body_ok_def
  proof (intro allI impI, goal_cases)
    case (1 enc fuel pre rest nm)
    then have ne: "ty \<noteq> TEnd"
      and w: "writeTag P (NBTTag ty tn v) False True = Inr enc"
      and fu: "tag_fuel (NBTTag ty tn v) \<le> Suc fuel"
      by simp_all
    consider (list) "ty = TList" | (compound) "ty = TCompound"
      | (flat) "ty \<noteq> TList" "ty \<noteq> TCompound" by blast
    then have "readBody P fuel (pre @ enc @ rest) (length pre) ty nm =
          Some (Inr (NBTTag ty nm v, length pre + length enc))"
    proof cases
      case list
      from NBTTag.prems list obtain itemType items where v: "v = VList itemType items"
        and it: "listed itemType" and len: "length items < 2 ^ 31"
        and items: "list_all (\<lambda>item. tag_type item = itemType \<and> tag_name item = None \<and> wf_payload P item) items"
        by (cases v) auto
      from w list v obtain bss where
        bss: "mapE (\<lambda>item. writeTag P item False True) items = Inr bss"
        and enc: "enc = writeByte (byte_of_TagType itemType) @ writeInt (int (length items)) @ concat bss"
        by (auto split: sum.splits)
      have "list_all2 (\<lambda>item bs. writeTag P item False True = Inr bs) items bss"
        using bss by (rule mapE_list_all2)
      then have ok: "list_all2 (item_ok P itemType) items bss"
      proof (rule list.rel_mono_strong)
        fix item bs
        assume i: "item \<in> set items" and wi: "writeTag P item False True = Inr bs"
        from items i have p: "tag_type item = itemType" "tag_name item = None" "wf_payload P item"
          by (auto simp: list_all_iff)
        have "body_ok P item"
          using NBTTag.IH [of item] v i p(3) by simp
        then show "item_ok P itemType item bs"
          using p wi by (intro item_from_body) auto
      qed
      have fu': "Suc (sum_list (map (\<lambda>item. Suc (tag_fuel item)) items)) \<le> fuel"
        using fu v by simp
      let ?buf = "pre @ enc @ rest"
      have 1: "getUint8 ?buf (length pre) = Inr (byte_of_TagType itemType)"
        using getUint8_type [OF it, of pre "writeInt (int (length items)) @ concat bss @ rest"]
        by (simp add: enc)
      have 2: "getInt32 ?buf k = Inr (int (length items))" if "k = length pre + 1" for k
        using getInt32_length [OF len, of "pre @ writeByte (byte_of_TagType itemType)" "concat bss @ rest"]
          that by (simp add: enc)
      have 3: "readListItems P fuel ?buf k itemType (length items) =
          Some (Inr (items, k + length (concat bss)))" if "k = length pre + 5" for k
        using items_rt [OF ok fu', of "pre @ writeByte (byte_of_TagType itemType) @ writeInt (int (length items))" rest]
          that by (simp add: enc ac_simps)
      have "readBody P fuel ?buf (length pre) TList nm =
          Some (Inr (NBTTag TList nm (VList itemType items), length pre + 5 + length (concat bss)))"
        by (simp add: readBody_def 1 2 3 TagType_of_byte_of [OF it])
      then show ?thesis
        using list v by (simp add: enc)
    next
      case compound
      from NBTTag.prems compound obtain cs where v: "v = VTags cs"
        and cs: "list_all (\<lambda>child. named_ok P child \<and> wf_payload P child) cs"
        by (cases v) auto
      from w compound v obtain bss where
        bss: "mapE (\<lambda>child. writeTag P child False False) cs = Inr bss"
        and enc: "enc = concat bss @ writeByte (byte_of_TagType TEnd)"
        by (auto split: sum.splits)
      have "list_all2 (\<lambda>child bs. writeTag P child False False = Inr bs) cs bss"
        using bss by (rule mapE_list_all2)
      then have ok: "list_all2 (child_ok P) cs bss"
      proof (rule list.rel_mono_strong)
        fix c bs
        assume i: "c \<in> set cs" and wi: "writeTag P c False False = Inr bs"
        from cs i have p: "named_ok P c" "wf_payload P c"
          by (auto simp: list_all_iff)
        have "body_ok P c"
          using NBTTag.IH [of c] v i p(2) by simp
        then show "child_ok P c bs"
          using p wi by (intro child_from_body [where r = False]) auto
      qed
      have fu': "Suc (sum_list (map (\<lambda>c. Suc (tag_fuel c)) cs)) \<le> fuel"
        using fu v by simp
      have 3: "readCompoundItems P fuel (pre @ enc @ rest) (length pre) =
          Some (Inr (cs, length pre + length (concat bss) + 1))"
        using children_rt [OF ok fu', of pre rest] by (simp add: enc)
      show ?thesis
        using compound v by (simp add: readBody_def 3) (simp add: enc)
    next
      case flat
      from w flat have wf: "writeFlat P ty v = Inr enc"
        by (auto split: sum.splits)
      have "readFlat P (pre @ enc @ rest) (length pre) ty = Inr (v, length pre + length enc)"
        using NBTTag.prems flat ne wf by (intro readFlat_writeFlat [where nm = tn]) auto
      with flat show ?thesis
        by (simp add: readBody_def)
    qed
    then show ?case by simp
  qed
qed

lemma writeFlat_wf:
  "wf_payload P (NBTTag ty nm v) \<Longrightarrow> \<exists>enc. writeFlat P ty v = Inr enc"
  by (cases ty; cases v) (simp_all add: writeFlat_def)

lemma writeTag_wf: "wf_payload P t \<Longrightarrow> \<exists>enc. writeTag P t isRoot skipHeader = Inr enc"
proof (induction t arbitrary: isRoot skipHeader)
  case (NBTTag ty nm v)
  consider (list) "ty = TList" | (compound) "ty = TCompound"
    | (flat) "ty \<noteq> TList" "ty \<noteq> TCompound" by blast
  then show ?case
  proof cases
    case list
    with NBTTag.prems obtain itemType items where v: "v = VList itemType items"
      and items: "list_all (\<lambda>item. tag_type item = itemType \<and> tag_name item = None \<and> wf_payload P item) items"
      by (cases v) auto
    have "\<exists>bss. mapE (\<lambda>item. writeTag P item False True) items = Inr bss"
    proof (rule mapE_Inr_ex)
      fix item assume i: "item \<in> set items"
      with items have "wf_payload P item" by (auto simp: list_all_iff)
      then show "\<exists>y. writeTag P item False True = Inr y"
        using NBTTag.IH [of item] v i by simp
    qed
    with list v show ?thesis by (auto simp: Let_def)
  next
    case compound
    with NBTTag.prems obtain cs where v: "v = VTags cs"
      and cs: "list_all (\<lambda>child. named_ok P child \<and> wf_payload P child) cs"
      by (cases v) auto
    have "\<exists>bss. mapE (\<lambda>child. writeTag P child False False) cs = Inr bss"
    proof (rule mapE_Inr_ex)
      fix c assume i: "c \<in> set cs"
      with cs have "wf_payload P c" by (auto simp: list_all_iff)
      then show "\<exists>y. writeTag P c False False = Inr y"
        using NBTTag.IH [of c] v i by simp
    qed
    with compound v show ?thesis by (auto simp: Let_def)
  next
    case flat
    with writeFlat_wf [OF NBTTag.prems] show ?thesis
      by (auto simp: Let_def)
  qed
qed

lemma type_byte_not_magic:
  "listed ty \<Longrightarrow> u8_at (writeByte (byte_of_TagType ty) @ bs) 0 \<noteq> Some 31"
  by (cases ty) (simp_all add: listed_def u8_at_def writeByte_def toInt32_def to_signed_def)

lemma named_bytes:
  assumes "wf_payload P t" and "named_ok P t" and "writeTag P t r False = Inr bytes"
  shows "\<not> gzip_magic bytes"
proof -
  obtain pay where "bytes = writeByte (byte_of_TagType (tag_type t)) @ pay"
    using assms(3) unfolding writeTag_header [of P t r] by (auto split: sum.splits)
  then show ?thesis
    using type_byte_not_magic [OF wf_payload_listed [OF assms(1)]]
    by (simp add: gzip_magic_def)
qed

lemma ascii_text_ok: "length s < 65536 \<Longrightarrow> text_ok ascii_platform s"
proof -
  have "char_of (unat (of_nat (of_char c) :: byte)) = c" for c
    by (simp add: unat_of_nat)
  then have "map (\<lambda>b. char_of (unat b)) (map (\<lambda>c. of_nat (of_char c) :: byte) s) = s"
    by (simp add: map_idI)
  then show "length s < 65536 \<Longrightarrow> text_ok ascii_platform s"
    by (simp add: text_ok_def ascii_platform_def)
qed

lemma xp_well_formed: "well_formed ascii_platform xp_root"
  by (simp add: well_formed_def named_ok_def xp_root_def ascii_text_ok in_bits_def)

subsection \<open>Reading a cut buffer\<close>

text \<open>
  A read that succeeds on a buffer gives the same result on the buffer cut at \<open>k\<close> when
  it ends within the cut, and a RangeError when it ends beyond.
\<close>

lemma view_take:
  assumes "view buf off n = Inr bs"
  shows "view (take k buf) off n = (if off + n \<le> k then Inr bs else Inl RangeError)"
proof -
  from assms have le: "off + n \<le> length buf" and bs: "bs = take n (drop off buf)"
    by (auto simp: view_def split: if_splits)
  show ?thesis
  proof (cases "off + n \<le> k")
    case True
    then have "take n (drop off (take k buf)) = take n (drop off buf)"
      by (simp add: drop_take min_def)
    with True le bs show ?thesis by (simp add: view_def)
  next
    case False
    then show ?thesis by (simp add: view_def)
  qed
qed

lemma map_sum_InrD: "map_sum f g r = Inr y \<Longrightarrow> \<exists>x. r = Inr x \<and> y = g x"
  by (cases r) auto

lemma getter_take:
  assumes "map_sum (\<lambda>e. e) g (view buf off n) = Inr v"
  shows "map_sum (\<lambda>e. e) g (view (take k buf) off n) = (if off + n \<le> k then Inr v else Inl RangeError)"
proof -
  from map_sum_InrD [OF assms] obtain bs where "view buf off n = Inr bs" "v = g bs" by blast
  then show ?thesis by (simp add: view_take)
qed

lemma getUint8_take:
  "getUint8 buf off = Inr v \<Longrightarrow>
   getUint8 (take k buf) off = (if off + 1 \<le> k then Inr v else Inl RangeError)"
  unfolding getUint8_def by (rule getter_take)

lemma getInt8_take:
  "getInt8 buf off = Inr v \<Longrightarrow>
   getInt8 (take k buf) off = (if off + 1 \<le> k then Inr v else Inl RangeError)"
  unfolding getInt8_def by (rule getter_take)

lemma getUint16_take:
  "getUint16 buf off = Inr v \<Longrightarrow>
   getUint16 (take k buf) off = (if off + 2 \<le> k then Inr v else Inl RangeError)"
  unfolding getUint16_def by (rule getter_take)

lemma getInt16_take:
  "getInt16 buf off = Inr v \<Longrightarrow>
   getInt16 (take k buf) off = (if off + 2 \<le> k then Inr v else Inl RangeError)"
  unfolding getInt16_def by (rule getter_take)

lemma getInt32_take:
  "getInt32 buf off = Inr v \<Longrightarrow>
   getInt32 (take k buf) off = (if off + 4 \<le> k then Inr v else Inl RangeError)"
  unfolding getInt32_def by (rule getter_take)

lemma getFloat32_take:
  "getFloat32 P buf off = Inr v \<Longrightarrow>
   getFloat32 P (take k buf) off = (if off + 4 \<le> k then Inr v else Inl RangeError)"
  unfolding getFloat32_def by (rule getter_take)

lemma getFloat64_take:
  "getFloat64 buf off = Inr v \<Longrightarrow>
   getFloat64 (take k buf) off = (if off + 8 \<le> k then Inr v else Inl RangeError)"
  unfolding getFloat64_def by (rule getter_take)

lemma parseLong_take:
  assumes "parseLong buf off = Inr v"
  shows "parseLong (take k buf) off = (if off + 8 \<le> k then Inr v else Inl RangeError)"
proof -
  from assms obtain h l where h: "getInt32 buf off = Inr h" and l: "getInt32 buf (off + 4) = Inr l"
    and v: "v = push_bit 32 h OR (l AND 4294967295)"
    by (auto simp: parseLong_def split: sum.splits)
  show ?thesis
    by (simp add: parseLong_def getInt32_take [OF h] getInt32_take [OF l] v)
qed

text \<open>A result of a reader that has no fuel, and the result on the buffer cut at \<open>k\<close>.\<close>

definition cut_ok :: "nat \<Rightarrow> nat \<Rightarrow> (error + 'a \<times> nat) \<Rightarrow> (error + 'a \<times> nat) \<Rightarrow> bool" where
  "cut_ok k off r r' =
     (\<forall>x off'. r = Inr (x, off') \<longrightarrow>
        off \<le> off' \<and> (off \<le> k \<longrightarrow> r' = (if off' \<le> k then r else Inl RangeError)))"

lemma readString_cut: "cut_ok k off (readString P buf off) (readString P (take k buf) off)"
  unfolding cut_ok_def
proof (intro allI impI)
  fix s off'
  assume r: "readString P buf off = Inr (s, off')"
  then obtain len bs where g: "getUint16 buf off = Inr len"
    and v: "view buf (Suc (Suc off)) (nat len) = Inr bs"
    and s: "s = utf8_decode P bs" and o: "off' = Suc (Suc off) + nat len"
    by (auto simp: readString_def Let_def split: sum.splits)
  have c: "readString P (take k buf) off =
      (if off + 2 \<le> k then (if Suc (Suc off) + nat len \<le> k then Inr (s, off') else Inl RangeError)
       else Inl RangeError)"
    by (simp add: readString_def Let_def getUint16_take [OF g] view_take [OF v] s o)
  show "off \<le> off' \<and> (off \<le> k \<longrightarrow>
      readString P (take k buf) off = (if off' \<le> k then readString P buf off else Inl RangeError))"
    unfolding c r using o by auto
qed

lemma readInts_cut: "cut_ok k off (readInts buf off n) (readInts (take k buf) off n)"
proof (induction n arbitrary: off)
  case 0
  then show ?case by (simp add: cut_ok_def)
next
  case (Suc n)
  show ?case
    unfolding cut_ok_def
  proof (intro allI impI)
    fix xs off'
    assume r: "readInts buf off (Suc n) = Inr (xs, off')"
    then obtain x ys where g: "getInt32 buf off = Inr x"
      and t: "readInts buf (off + 4) n = Inr (ys, off')" and xs: "xs = x # ys"
      by (auto split: sum.splits)
    from Suc.IH [of "off + 4"] t have m: "off + 4 \<le> off'"
      and c: "off + 4 \<le> k \<Longrightarrow> readInts (take k buf) (off + 4) n =
          (if off' \<le> k then Inr (ys, off') else Inl RangeError)"
      by (auto simp: cut_ok_def)
    show "off \<le> off' \<and> (off \<le> k \<longrightarrow>
        readInts (take k buf) off (Suc n) = (if off' \<le> k then readInts buf off (Suc n) else Inl RangeError))"
      using m c by (auto simp: getInt32_take [OF g] g t xs)
  qed
qed

lemma readLongs_cut: "cut_ok k off (readLongs buf off n) (readLongs (take k buf) off n)"
proof (induction n arbitrary: off)
  case 0
  then show ?case by (simp add: cut_ok_def)
next
  case (Suc n)
  show ?case
    unfolding cut_ok_def
  proof (intro allI impI)
    fix xs off'
    assume r: "readLongs buf off (Suc n) = Inr (xs, off')"
    then obtain x ys where g: "parseLong buf off = Inr x"
      and t: "readLongs buf (off + 8) n = Inr (ys, off')" and xs: "xs = x # ys"
      by (auto split: sum.splits)
    from Suc.IH [of "off + 8"] t have m: "off + 8 \<le> off'"
      and c: "off + 8 \<le> k \<Longrightarrow> readLongs (take k buf) (off + 8) n =
          (if off' \<le> k then Inr (ys, off') else Inl RangeError)"
      by (auto simp: cut_ok_def)
    show "off \<le> off' \<and> (off \<le> k \<longrightarrow>
        readLongs (take k buf) off (Suc n) = (if off' \<le> k then readLongs buf off (Suc n) else Inl RangeError))"
      using m c by (auto simp: parseLong_take [OF g] g t xs)
  qed
qed

lemma cut_ok_getter:
  assumes "\<And>v. g = Inr v \<Longrightarrow> g' = (if off + w \<le> k then Inr v else Inl RangeError)"
  shows "cut_ok k off (map_sum (\<lambda>e. e) (\<lambda>v. (f v, off + w)) g) (map_sum (\<lambda>e. e) (\<lambda>v. (f v, off + w)) g')"
  unfolding cut_ok_def
proof (intro allI impI)
  fix x off'
  assume "map_sum (\<lambda>e. e) (\<lambda>v. (f v, off + w)) g = Inr (x, off')"
  then obtain v where v: "g = Inr v" "x = f v" "off' = off + w"
    by (cases g) auto
  show "off \<le> off' \<and> (off \<le> k \<longrightarrow>
      map_sum (\<lambda>e. e) (\<lambda>v. (f v, off + w)) g' =
        (if off' \<le> k then map_sum (\<lambda>e. e) (\<lambda>v. (f v, off + w)) g else Inl RangeError))"
    using assms [OF v(1)] v by auto
qed

lemma cut_ok_map:
  assumes "cut_ok k off r r'"
  shows "cut_ok k off (map_sum (\<lambda>e. e) (\<lambda>(x, off). (f x, off)) r) (map_sum (\<lambda>e. e) (\<lambda>(x, off). (f x, off)) r')"
  unfolding cut_ok_def
proof (intro allI impI)
  fix y off'
  assume "map_sum (\<lambda>e. e) (\<lambda>(x, off). (f x, off)) r = Inr (y, off')"
  then obtain x where x: "r = Inr (x, off')" "y = f x"
    by (cases r) auto
  with assms have "off \<le> off'" and "off \<le> k \<Longrightarrow> r' = (if off' \<le> k then r else Inl RangeError)"
    by (auto simp: cut_ok_def)
  then show "off \<le> off' \<and> (off \<le> k \<longrightarrow>
      map_sum (\<lambda>e. e) (\<lambda>(x, off). (f x, off)) r' =
        (if off' \<le> k then map_sum (\<lambda>e. e) (\<lambda>(x, off). (f x, off)) r else Inl RangeError))"
    using x by auto
qed

lemma cut_ok_after:
  assumes g: "\<And>v. g = Inr v \<Longrightarrow> g' = (if off + w \<le> k then Inr v else Inl RangeError)"
    and r: "\<And>v. cut_ok k (off + w) (r v) (r' v)"
  shows "cut_ok k off (case g of Inl e \<Rightarrow> Inl e | Inr v \<Rightarrow> r v) (case g' of Inl e \<Rightarrow> Inl e | Inr v \<Rightarrow> r' v)"
  unfolding cut_ok_def
proof (intro allI impI)
  fix x off'
  assume a: "(case g of Inl e \<Rightarrow> Inl e | Inr v \<Rightarrow> r v) = Inr (x, off')"
  then obtain v where v: "g = Inr v" "r v = Inr (x, off')"
    by (cases g) auto
  from r [of v] v(2) have m: "off + w \<le> off'"
    and c: "off + w \<le> k \<Longrightarrow> r' v = (if off' \<le> k then r v else Inl RangeError)"
    by (auto simp: cut_ok_def)
  show "off \<le> off' \<and> (off \<le> k \<longrightarrow>
      (case g' of Inl e \<Rightarrow> Inl e | Inr v \<Rightarrow> r' v) =
        (if off' \<le> k then (case g of Inl e \<Rightarrow> Inl e | Inr v \<Rightarrow> r v) else Inl RangeError))"
    using m c g [OF v(1)] v by auto
qed

lemma readFlat_cut: "cut_ok k off (readFlat P buf off ty) (readFlat P (take k buf) off ty)"
proof (cases ty)
  case TByte
  then show ?thesis
    by (simp add: readFlat_def del: One_nat_def) (rule cut_ok_getter, rule getInt8_take)
next
  case TShort
  then show ?thesis
    by (simp add: readFlat_def) (rule cut_ok_getter [where w = 2, simplified], rule getInt16_take [simplified])
next
  case TInt
  then show ?thesis
    by (simp add: readFlat_def) (rule cut_ok_getter, rule getInt32_take)
next
  case TLong
  then show ?thesis
    by (simp add: readFlat_def) (rule cut_ok_getter, rule parseLong_take)
next
  case TFloat
  then show ?thesis
    by (simp add: readFlat_def) (rule cut_ok_getter, rule getFloat32_take)
next
  case TDouble
  then show ?thesis
    by (simp add: readFlat_def) (rule cut_ok_getter, rule getFloat64_take)
next
  case TByteArray
  have inner: "cut_ok k (off + 4)
      (if lenByte < 0 then Inl RangeError
       else case view buf (off + 4) (nat lenByte) of Inl e \<Rightarrow> Inl e
            | Inr bytes \<Rightarrow> Inr (VNumbers (map sint bytes), off + 4 + nat lenByte))
      (if lenByte < 0 then Inl RangeError
       else case view (take k buf) (off + 4) (nat lenByte) of Inl e \<Rightarrow> Inl e
            | Inr bytes \<Rightarrow> Inr (VNumbers (map sint bytes), off + 4 + nat lenByte))" for lenByte
    unfolding cut_ok_def
  proof (intro allI impI)
    fix x off'
    assume a: "(if lenByte < 0 then Inl RangeError
       else case view buf (off + 4) (nat lenByte) of Inl e \<Rightarrow> Inl e
            | Inr bytes \<Rightarrow> Inr (VNumbers (map sint bytes), off + 4 + nat lenByte)) = Inr (x, off')"
    then obtain bs where n: "\<not> lenByte < 0" and v: "view buf (off + 4) (nat lenByte) = Inr bs"
      and x: "x = VNumbers (map sint bs)" "off' = off + 4 + nat lenByte"
      by (auto split: if_splits sum.splits)
    show "off + 4 \<le> off' \<and> (off + 4 \<le> k \<longrightarrow>
       (if lenByte < 0 then Inl RangeError
       else case view (take k buf) (off + 4) (nat lenByte) of Inl e \<Rightarrow> Inl e
            | Inr bytes \<Rightarrow> Inr (VNumbers (map sint bytes), off + 4 + nat lenByte)) =
       (if off' \<le> k then
          (if lenByte < 0 then Inl RangeError
           else case view buf (off + 4) (nat lenByte) of Inl e \<Rightarrow> Inl e
            | Inr bytes \<Rightarrow> Inr (VNumbers (map sint bytes), off + 4 + nat lenByte))
        else Inl RangeError))"
      using n x by (simp add: view_take [OF v] v)
  qed
  have "cut_ok k off
      (case getInt32 buf off of Inl e \<Rightarrow> Inl e
       | Inr lenByte \<Rightarrow>
          (if lenByte < 0 then Inl RangeError
           else case view buf (off + 4) (nat lenByte) of Inl e \<Rightarrow> Inl e
            | Inr bytes \<Rightarrow> Inr (VNumbers (map sint bytes), off + 4 + nat lenByte)))
      (case getInt32 (take k buf) off of Inl e \<Rightarrow> Inl e
       | Inr lenByte \<Rightarrow>
          (if lenByte < 0 then Inl RangeError
           else case view (take k buf) (off + 4) (nat lenByte) of Inl e \<Rightarrow> Inl e
            | Inr bytes \<Rightarrow> Inr (VNumbers (map sint bytes), off + 4 + nat lenByte)))"
  proof (rule cut_ok_after)
    show "getInt32 (take k buf) off = (if off + 4 \<le> k then Inr v else Inl RangeError)"
      if "getInt32 buf off = Inr v" for v
      using that by (rule getInt32_take)
  qed (rule inner)
  with TByteArray show ?thesis
    unfolding readFlat_def Let_def by simp
next
  case TString
  then show ?thesis
    using cut_ok_map [OF readString_cut, where f = VString]
    by (simp add: readFlat_def)
next
  case TIntArray
  have "cut_ok k off
      (case getInt32 buf off of Inl e \<Rightarrow> Inl e
       | Inr lenInt \<Rightarrow> map_sum (\<lambda>e. e) (\<lambda>(xs, off). (VNumbers xs, off)) (readInts buf (off + 4) (nat lenInt)))
      (case getInt32 (take k buf) off of Inl e \<Rightarrow> Inl e
       | Inr lenInt \<Rightarrow> map_sum (\<lambda>e. e) (\<lambda>(xs, off). (VNumbers xs, off)) (readInts (take k buf) (off + 4) (nat lenInt)))"
  proof (rule cut_ok_after)
    show "getInt32 (take k buf) off = (if off + 4 \<le> k then Inr v else Inl RangeError)"
      if "getInt32 buf off = Inr v" for v
      using that by (rule getInt32_take)
  qed (rule cut_ok_map, rule readInts_cut)
  with TIntArray show ?thesis
    by (simp add: readFlat_def)
next
  case TLongArray
  have "cut_ok k off
      (case getInt32 buf off of Inl e \<Rightarrow> Inl e
       | Inr lenLong \<Rightarrow> map_sum (\<lambda>e. e) (\<lambda>(xs, off). (VBigInts xs, off)) (readLongs buf (off + 4) (nat lenLong)))
      (case getInt32 (take k buf) off of Inl e \<Rightarrow> Inl e
       | Inr lenLong \<Rightarrow> map_sum (\<lambda>e. e) (\<lambda>(xs, off). (VBigInts xs, off)) (readLongs (take k buf) (off + 4) (nat lenLong)))"
  proof (rule cut_ok_after)
    show "getInt32 (take k buf) off = (if off + 4 \<le> k then Inr v else Inl RangeError)"
      if "getInt32 buf off = Inr v" for v
      using that by (rule getInt32_take)
  qed (rule cut_ok_map, rule readLongs_cut)
  with TLongArray show ?thesis
    by (simp add: readFlat_def)
qed (simp_all add: readFlat_def cut_ok_def)

lemma readType_cut: "cut_ok k off (readType buf off ft) (readType (take k buf) off ft)"
proof (cases ft)
  case None
  then show ?thesis
    by (simp add: readType_def del: One_nat_def) (rule cut_ok_getter, rule getUint8_take)
next
  case (Some ty)
  then show ?thesis by (simp add: readType_def cut_ok_def)
qed

lemma readType_strict: "readType buf off None = Inr (ty, off') \<Longrightarrow> off < off'"
  by (cases "getUint8 buf off") (auto simp: readType_def)

lemma readName_cut:
  "cut_ok k off (readName P buf off r ft fn) (readName P (take k buf) off r ft fn)"
  using cut_ok_map [OF readString_cut, where f = Some]
  by (simp add: readName_def cut_ok_def)

text \<open>
  A reading that needs fuel, from offset \<open>off\<close>, and the same reading on the buffer cut
  at \<open>k\<close>: a result never lies before \<open>off\<close>; it is kept when it ends within the cut, and
  it becomes a RangeError when it ends beyond.
\<close>

definition good :: "nat \<Rightarrow> nat \<Rightarrow> 'a reading \<Rightarrow> 'a reading \<Rightarrow> bool" where
  "good k off r r' =
     (\<forall>x off'. r = Some (Inr (x, off')) \<longrightarrow>
        off \<le> off' \<and> (off \<le> k \<longrightarrow> r' = (if off' \<le> k then r else Some (Inl RangeError))))"

lemma good_Some: "cut_ok k off r r' \<Longrightarrow> good k off (Some r) (Some r')"
  by (auto simp: cut_ok_def good_def)

lemma good_pure: "good k off (Some (Inr (x, off))) (Some (Inr (x, off)))"
  by (simp add: good_def)

lemma bindR_Some_InrD:
  "bindR m g = Some (Inr z) \<Longrightarrow> \<exists>x off. m = Some (Inr (x, off)) \<and> g x off = Some (Inr z)"
  by (auto simp: bindR_def split: option.splits sum.splits)

lemma good_bind:
  assumes m: "good k off m m'" and g: "\<And>x o1. good k o1 (g x o1) (g' x o1)"
  shows "good k off (bindR m g) (bindR m' g')"
  unfolding good_def
proof (intro allI impI)
  fix y off'
  assume a: "bindR m g = Some (Inr (y, off'))"
  from bindR_Some_InrD [OF a] obtain x o1 where
    x: "m = Some (Inr (x, o1))" and y: "g x o1 = Some (Inr (y, off'))"
    by blast
  from m x have m1: "off \<le> o1"
    and m2: "off \<le> k \<Longrightarrow> m' = (if o1 \<le> k then m else Some (Inl RangeError))"
    by (auto simp: good_def)
  from g [of o1 x] y have g1: "o1 \<le> off'"
    and g2: "o1 \<le> k \<Longrightarrow> g' x o1 = (if off' \<le> k then g x o1 else Some (Inl RangeError))"
    by (auto simp: good_def)
  show "off \<le> off' \<and> (off \<le> k \<longrightarrow>
      bindR m' g' = (if off' \<le> k then bindR m g else Some (Inl RangeError)))"
  proof (intro conjI impI)
    show "off \<le> off'" using m1 g1 by simp
  next
    assume k: "off \<le> k"
    show "bindR m' g' = (if off' \<le> k then bindR m g else Some (Inl RangeError))"
    proof (cases "o1 \<le> k")
      case True
      with m2 [OF k] x have "m' = Some (Inr (x, o1))" by simp
      with g2 [OF True] x show ?thesis by simp
    next
      case False
      with m2 [OF k] have "m' = Some (Inl RangeError)" by simp
      moreover from False g1 have "\<not> off' \<le> k" by simp
      ultimately show ?thesis by simp
    qed
  qed
qed

lemma good_if:
  "(c \<Longrightarrow> good k off a a') \<Longrightarrow> (\<not> c \<Longrightarrow> good k off b b') \<Longrightarrow>
   good k off (if c then a else b) (if c then a' else b')"
  by simp

lemma good_readBody:
  assumes l: "\<And>off ty n. good k off (readListItems P f buf off ty n) (readListItems P f (take k buf) off ty n)"
    and c: "\<And>off. good k off (readCompoundItems P f buf off) (readCompoundItems P f (take k buf) off)"
  shows "good k off (readBody P f buf off ty nm) (readBody P f (take k buf) off ty nm)"
  unfolding readBody_def
proof (intro good_bind good_if good_pure)
  show "good k off
      (Some (map_sum (\<lambda>e. e) (\<lambda>b. (TagType_of_byte b, off + 1)) (getUint8 buf off)))
      (Some (map_sum (\<lambda>e. e) (\<lambda>b. (TagType_of_byte b, off + 1)) (getUint8 (take k buf) off)))"
    by (intro good_Some cut_ok_getter getUint8_take)
  show "good k o1
      (Some (map_sum (\<lambda>e. e) (\<lambda>n. (n, o1 + 4)) (getInt32 buf o1)))
      (Some (map_sum (\<lambda>e. e) (\<lambda>n. (n, o1 + 4)) (getInt32 (take k buf) o1)))" for o1
    by (intro good_Some cut_ok_getter getInt32_take)
  show "good k o1 (readListItems P f buf o1 x (nat xa)) (readListItems P f (take k buf) o1 x (nat xa))"
    for o1 x xa
    by (rule l)
  show "good k off (readCompoundItems P f buf off) (readCompoundItems P f (take k buf) off)"
    by (rule c)
  show "good k off (Some (readFlat P buf off ty)) (Some (readFlat P (take k buf) off ty))"
    by (intro good_Some readFlat_cut)
qed

lemma good_readTag_step:
  assumes l: "\<And>off ty n. good k off (readListItems P f buf off ty n) (readListItems P f (take k buf) off ty n)"
    and c: "\<And>off. good k off (readCompoundItems P f buf off) (readCompoundItems P f (take k buf) off)"
  shows "good k off (readTag P (Suc f) buf off r ft fn) (readTag P (Suc f) (take k buf) off r ft fn)"
    and "readTag P (Suc f) buf off r None fn = Some (Inr (t, off')) \<Longrightarrow> off < off'"
proof -
  let ?K = "\<lambda>buf ft ty off.
       if ty = TEnd then Some (Inr (NBTTag ty None VNull, off))
       else bindR (Some (readName P buf off r ft fn)) (\<lambda>name off. readBody P f buf off ty name)"
  have K: "good k o1 (?K buf ft ty o1) (?K (take k buf) ft ty o1)" for ty o1 ft
    by (intro good_if good_pure good_bind good_Some readName_cut good_readBody l c)
  show "good k off (readTag P (Suc f) buf off r ft fn) (readTag P (Suc f) (take k buf) off r ft fn)"
    unfolding readTag_Suc
    by (rule good_bind [OF good_Some [OF readType_cut] K])
  assume "readTag P (Suc f) buf off r None fn = Some (Inr (t, off'))"
  then obtain ty o1 where 1: "readType buf off None = Inr (ty, o1)"
    and 2: "?K buf None ty o1 = Some (Inr (t, off'))"
    unfolding readTag_Suc by (auto dest!: bindR_Some_InrD)
  from K [of o1 ty None] 2 have "o1 \<le> off'"
    unfolding good_def by blast
  with readType_strict [OF 1] show "off < off'" by simp
qed

lemma good_reader:
  "good k off (readTag P fuel buf off r ft fn) (readTag P fuel (take k buf) off r ft fn) \<and>
   (\<forall>t off'. readTag P fuel buf off r None fn = Some (Inr (t, off')) \<longrightarrow> off < off') \<and>
   good k off (readListItems P fuel buf off ty n) (readListItems P fuel (take k buf) off ty n) \<and>
   good k off (readCompoundItems P fuel buf off) (readCompoundItems P fuel (take k buf) off)"
proof (induction fuel arbitrary: off r ft fn ty n)
  case 0
  then show ?case by (simp add: good_def)
next
  case (Suc f)
  have l: "good k off (readListItems P f buf off ty n) (readListItems P f (take k buf) off ty n)"
    for off ty n
    using Suc.IH by blast
  have c: "good k off (readCompoundItems P f buf off) (readCompoundItems P f (take k buf) off)" for off
    using Suc.IH by blast
  have t: "good k off (readTag P f buf off r ft fn) (readTag P f (take k buf) off r ft fn)"
    for off r ft fn
    using Suc.IH by blast
  have s: "off < off'" if "readTag P f buf off r None fn = Some (Inr (t, off'))" for off r fn t off'
    using Suc.IH that by blast
  have 1: "good k off (readTag P (Suc f) buf off r ft fn) (readTag P (Suc f) (take k buf) off r ft fn)"
    using l c by (rule good_readTag_step(1))
  have 2: "\<forall>t off'. readTag P (Suc f) buf off r None fn = Some (Inr (t, off')) \<longrightarrow> off < off'"
    using good_readTag_step(2) [of k P f buf, OF l c] by blast
  have 3: "good k off (readListItems P (Suc f) buf off ty n) (readListItems P (Suc f) (take k buf) off ty n)"
    by (simp del: bindR_simps) (intro conjI impI good_bind good_pure t l)
  have 4: "good k off (readCompoundItems P (Suc f) buf off) (readCompoundItems P (Suc f) (take k buf) off)"
    unfolding good_def
  proof (intro allI impI)
    fix x off'
    assume a: "readCompoundItems P (Suc f) buf off = Some (Inr (x, off'))"
    then obtain b where b: "getUint8 buf off = Inr b"
      by (cases "getUint8 buf off") auto
    let ?rest = "\<lambda>buf. bindR (readTag P f buf off False None None) (\<lambda>child off.
              bindR (readCompoundItems P f buf off) (\<lambda>children off.
                Some (Inr (child # children, off))))"
    have rest: "good k off (?rest buf) (?rest (take k buf))"
      by (intro good_bind good_pure t c)
    have strict: "off < off'"
    proof (cases "TagType_of_byte b = TEnd")
      case True
      with a b show ?thesis by simp
    next
      case False
      with a b have "?rest buf = Some (Inr (x, off'))" by simp
      from bindR_Some_InrD [OF this] obtain child o1 where
        "readTag P f buf off False None None = Some (Inr (child, o1))"
        and r2: "bindR (readCompoundItems P f buf o1) (\<lambda>children off.
                Some (Inr (child # children, off))) = Some (Inr (x, off'))"
        by blast
      then have "off < o1" using s by blast
      moreover have "good k o1 (bindR (readCompoundItems P f buf o1) (\<lambda>children off.
                Some (Inr (child # children, off))))
             (bindR (readCompoundItems P f (take k buf) o1) (\<lambda>children off.
                Some (Inr (child # children, off))))"
        by (intro good_bind good_pure c)
      with r2 have "o1 \<le> off'" unfolding good_def by blast
      ultimately show ?thesis by simp
    qed
    show "off \<le> off' \<and> (off \<le> k \<longrightarrow>
        readCompoundItems P (Suc f) (take k buf) off =
          (if off' \<le> k then readCompoundItems P (Suc f) buf off else Some (Inl RangeError)))"
    proof (intro conjI impI)
      show "off \<le> off'" using strict by simp
    next
      assume k: "off \<le> k"
      show "readCompoundItems P (Suc f) (take k buf) off =
          (if off' \<le> k then readCompoundItems P (Suc f) buf off else Some (Inl RangeError))"
      proof (cases "off + 1 \<le> k")
        case True
        then have g: "getUint8 (take k buf) off = Inr b"
          using getUint8_take [OF b, of k] by simp
        show ?thesis
        proof (cases "TagType_of_byte b = TEnd")
          case End: True
          with a b have "off' = off + 1" by simp
          with End True b g show ?thesis by simp
        next
          case False
          with a b have "?rest buf = Some (Inr (x, off'))" by simp
          with rest k have "?rest (take k buf) = (if off' \<le> k then ?rest buf else Some (Inl RangeError))"
            unfolding good_def by blast
          with False b g show ?thesis by simp
        qed
      next
        case False
        then have "getUint8 (take k buf) off = Inl RangeError"
          using getUint8_take [OF b, of k] by simp
        moreover from False strict k have "\<not> off' \<le> k" by simp
        ultimately show ?thesis by simp
      qed
    qed
  qed
  from 1 2 3 4 show ?case by blast
qed

subsection \<open>Lengths below zero and Lists of End\<close>

lemma decode_cut:
  assumes "decode P fuel buf = Some (Inr (t, n))"
  shows "n \<le> length buf" and "k < n \<Longrightarrow> decode P fuel (take k buf) = Some (Inl RangeError)"
proof -
  have g: "good k 0 (decode P fuel buf) (decode P fuel (take k buf))" for k
    unfolding decode_def using good_reader [of k 0 P fuel buf True None None] by blast
  from g [of k] assms show "k < n \<Longrightarrow> decode P fuel (take k buf) = Some (Inl RangeError)"
    by (auto simp: good_def)
  from g [of "length buf"] assms show "n \<le> length buf"
    by (auto simp: good_def split: if_splits)
qed

lemma readTag_flat:
  assumes "readType buf off ft = Inr (ty, o1)" and "readName P buf o1 r ft fn = Inr (nm, o2)"
    and "ty \<noteq> TEnd" and "ty \<noteq> TList" and "ty \<noteq> TCompound"
  shows "readTag P (Suc fuel) buf off r ft fn =
     bindR (Some (readFlat P buf o2 ty)) (\<lambda>v off. Some (Inr (NBTTag ty nm v, off)))"
  using assms by (simp add: readTag_Suc readBody_def)

lemma readTag_negative_ByteArray:
  assumes "readType buf off ft = Inr (TByteArray, o1)" and "readName P buf o1 r ft fn = Inr (nm, o2)"
    and "getInt32 buf o2 = Inr len" and "len < 0"
  shows "readTag P (Suc fuel) buf off r ft fn = Some (Inl RangeError)"
  using assms(3,4) readTag_flat [OF assms(1,2), of fuel] by (simp add: readFlat_def)

lemma readTag_negative_IntArray:
  assumes "readType buf off ft = Inr (TIntArray, o1)" and "readName P buf o1 r ft fn = Inr (nm, o2)"
    and "getInt32 buf o2 = Inr len" and "len < 0"
  shows "readTag P (Suc fuel) buf off r ft fn = Some (Inr (NBTTag TIntArray nm (VNumbers []), o2 + 4))"
  using assms(3,4) readTag_flat [OF assms(1,2), of fuel] by (simp add: readFlat_def)

lemma readTag_negative_LongArray:
  assumes "readType buf off ft = Inr (TLongArray, o1)" and "readName P buf o1 r ft fn = Inr (nm, o2)"
    and "getInt32 buf o2 = Inr len" and "len < 0"
  shows "readTag P (Suc fuel) buf off r ft fn = Some (Inr (NBTTag TLongArray nm (VBigInts []), o2 + 4))"
  using assms(3,4) readTag_flat [OF assms(1,2), of fuel] by (simp add: readFlat_def)

lemma readListItems_End:
  "n < fuel \<Longrightarrow>
   readListItems P fuel buf off TEnd n = Some (Inr (replicate n (NBTTag TEnd None VNull), off))"
proof (induction n arbitrary: fuel)
  case 0
  then show ?case by (cases fuel) simp_all
next
  case (Suc n)
  then obtain f where f: "fuel = Suc f" and n: "n < f"
    by (cases fuel) auto
  from n obtain f' where f': "f = Suc f'"
    by (cases f) auto
  have "readTag P f buf off False (Some TEnd) None = Some (Inr (NBTTag TEnd None VNull, off))"
    unfolding f' readTag_Suc by (simp add: readType_def)
  with Suc.IH [OF n] show ?case
    by (simp add: f)
qed

lemma readListItems_none:
  "readListItems P (Suc fuel) buf off ty 0 = Some (Inr ([], off))"
  by simp

lemma readTag_List_header:
  assumes "readType buf off ft = Inr (TList, o1)" and "readName P buf o1 r ft fn = Inr (nm, o2)"
    and "getUint8 buf o2 = Inr b" and "getInt32 buf (o2 + 1) = Inr len"
  shows "readTag P (Suc fuel) buf off r ft fn =
     bindR (readListItems P fuel buf (o2 + 5) (TagType_of_byte b) (nat len))
       (\<lambda>items off. Some (Inr (NBTTag TList nm (VList (TagType_of_byte b) items), off)))"
proof -
  have "readBody P fuel buf o2 TList nm =
      bindR (readListItems P fuel buf (o2 + 5) (TagType_of_byte b) (nat len))
        (\<lambda>items off. Some (Inr (NBTTag TList nm (VList (TagType_of_byte b) items), off)))"
    using assms(3,4) by (simp add: readBody_def ac_simps bindR_def split: option.splits sum.splits)
  then show ?thesis
    using assms(1,2) by (simp add: readTag_Suc bindR_def split: option.splits sum.splits)
qed

lemma readTag_End_list:
  assumes "readType buf off ft = Inr (TList, o1)" and "readName P buf o1 r ft fn = Inr (nm, o2)"
    and "getUint8 buf o2 = Inr b" and "TagType_of_byte b = TEnd"
    and "getInt32 buf (o2 + 1) = Inr len" and "nat len < fuel"
  shows "readTag P (Suc fuel) buf off r ft fn =
     Some (Inr (NBTTag TList nm (VList TEnd (replicate (nat len) (NBTTag TEnd None VNull))), o2 + 5))"
  unfolding readTag_List_header [OF assms(1,2,3,5)]
  using assms(4) readListItems_End [OF assms(6)] by simp

lemma readTag_negative_List:
  assumes "readType buf off ft = Inr (TList, o1)" and "readName P buf o1 r ft fn = Inr (nm, o2)"
    and "getUint8 buf o2 = Inr b" and "getInt32 buf (o2 + 1) = Inr len" and "len \<le> 0"
  shows "readTag P (Suc (Suc fuel)) buf off r ft fn =
     Some (Inr (NBTTag TList nm (VList (TagType_of_byte b) []), o2 + 5))"
  unfolding readTag_List_header [OF assms(1,2,3,4)]
  using assms(5) by simp

section \<open>The claims\<close>

text \<open>
  Claim C5, bulk delete. For a tree whose containers have the shape of their kind and a
  path set that does not hold the path of the root, \<open>deleteNodesByPaths\<close> returns the
  tree in which every node whose current path is in the set is dropped with its
  subtree, and the surviving children of each Compound and List are kept in their
  order (\<open>pruned\<close>); when no path of the tree is in the set, the result is the input.
\<close>

theorem bulk_delete_postcondition:
  assumes "shaped t" and "''root'' \<notin> S"
  shows "deleteNodesByPaths t S = Inr (pruned S t ''root'') \<and>
         (\<exists>ps. flattenTree t ''root'' = Inr ps \<and>
               (set ps \<inter> S = {} \<longrightarrow> deleteNodesByPaths t S = Inr t))"
proof -
  have 1: "deleteNodesByPaths t S = Inr (pruned S t ''root'')"
    using assms by (rule deleteNodesByPaths_pruned)
  from flattenTree_shaped [OF assms(1), of "''root''"] obtain ps where
    ps: "flattenTree t ''root'' = Inr ps" by blast
  have "pruned S t ''root'' = t" if "set ps \<inter> S = {}"
    using pruned_noop [OF assms(1) ps that] .
  with 1 ps show ?thesis by auto
qed

lemma example_root_shaped: "shaped example_root"
  by (simp add: example_root_def)

lemma example_root_paths:
  "flattenTree example_root ''root'' =
     Inr [''root'', ''root.a'', ''root.a'', ''root.l'', ''root.l[0]'', ''root.l[1]'']"
  by (simp add: example_root_def child_path_def index_path_def name_text_def indexed_def
      digits.simps)

text \<open>The postcondition at the example tree: one List element deleted, and a path set that misses the tree.\<close>

theorem bulk_delete_postcondition_witness:
  "shaped example_root \<and> ''root'' \<notin> {''root.l[0]''} \<and>
   deleteNodesByPaths example_root {''root.l[0]''} =
     Inr (NBTTag TCompound (Some [])
       (VTags [NBTTag TInt (Some ''a'') (VNumber 1),
               NBTTag TInt (Some ''a'') (VNumber 2),
               NBTTag TList (Some ''l'') (VList TByte [NBTTag TByte None (VNumber 8)])])) \<and>
   set [''root'', ''root.a'', ''root.a'', ''root.l'', ''root.l[0]'', ''root.l[1]''] \<inter> {''nowhere''} = {} \<and>
   deleteNodesByPaths example_root {''nowhere''} = Inr example_root"
proof -
  have a: "''root'' \<notin> {''root.l[0]''}" and b: "''root'' \<notin> {''nowhere''}" by simp_all
  have p: "pruned {''root.l[0]''} example_root ''root'' =
     NBTTag TCompound (Some [])
       (VTags [NBTTag TInt (Some ''a'') (VNumber 1),
               NBTTag TInt (Some ''a'') (VNumber 2),
               NBTTag TList (Some ''l'') (VList TByte [NBTTag TByte None (VNumber 8)])])"
    by (simp add: example_root_def child_path_def index_path_def name_text_def indexed_def
        digits.simps)
  have 1: "deleteNodesByPaths example_root {''root.l[0]''} =
      Inr (pruned {''root.l[0]''} example_root ''root'')"
    using bulk_delete_postcondition [OF example_root_shaped a] by (rule conjunct1)
  have "\<exists>ps. flattenTree example_root ''root'' = Inr ps \<and>
          (set ps \<inter> {''nowhere''} = {} \<longrightarrow> deleteNodesByPaths example_root {''nowhere''} = Inr example_root)"
    using bulk_delete_postcondition [OF example_root_shaped b] by (rule conjunct2)
  then have 2: "deleteNodesByPaths example_root {''nowhere''} = Inr example_root"
    by (simp add: example_root_paths)
  show ?thesis
    using 1 2 by (simp add: p example_root_shaped)
qed

text \<open>
  With the path of the root in the set the root is not removed: it comes back with an
  empty array as its value, whatever its kind.
\<close>

theorem bulk_delete_root_counterexample:
  "deleteNodesByPaths (NBTTag TInt (Some ''n'') (VNumber 5)) {''root''} =
     Inr (NBTTag TInt (Some ''n'') (VTags [])) \<and>
   flattenTree (NBTTag TInt (Some ''n'') (VTags [])) ''root'' = Inr [''root''] \<and>
   pruned {''root''} (NBTTag TInt (Some ''n'') (VNumber 5)) ''root'' \<noteq> NBTTag TInt (Some ''n'') (VTags [])"
  by (simp add: deleteNodesByPaths_def)

text \<open>
  Claim C6, root protection. The bulk delete with the path of the root in the set
  returns the root emptied of its children, and \<open>deleteSelected\<close> installs that root.
\<close>

theorem root_delete_empties_root:
  "deleteNodesByPaths example_root {''root''} = Inr (NBTTag TCompound (Some []) (VTags [])) \<and>
   (case deleteSelected True (example_app\<lparr>selectedPaths := {''root''}\<rparr>) of
      Inl e \<Rightarrow> None
    | Inr app \<Rightarrow> active_root app) = Some (NBTTag TCompound (Some []) (VTags []))"
proof -
  have d: "deleteNodesByPaths example_root {''root''} = Inr (NBTTag TCompound (Some []) (VTags []))"
    by (simp add: deleteNodesByPaths_def example_root_def)
  have a: "activeFile (example_app\<lparr>selectedPaths := {''root''}\<rparr>) = Some example_file"
    by (simp add: activeFile_def example_app_def example_file_def)
  have r: "root example_file = example_root"
    by (simp add: example_file_def)
  have s: "selectedPaths (example_app\<lparr>selectedPaths := {''root''}\<rparr>) = {''root''}"
    by simp
  have e: "deleteSelected True (example_app\<lparr>selectedPaths := {''root''}\<rparr>) =
      Inr ((updateActiveFileRoot (NBTTag TCompound (Some []) (VTags []))
             (example_app\<lparr>selectedPaths := {''root''}\<rparr>))\<lparr>selectedPaths := {}\<rparr>)"
    by (simp add: deleteSelected_def a r d)
  show ?thesis
    unfolding e
    by (simp add: d example_app_def example_file_def updateActiveFileRoot_def pushHistory_def
          active_root_def activeFile_def)
qed

text \<open>
  Claim C7, undo and redo. In any state of the application with an active document:
  an undo right after a commit restores the root from before the commit; a redo right
  after that undo restores the committed root; a commit after an undo leaves the redo
  stack empty, so that a redo after it changes nothing.
\<close>

theorem undo_redo_inverse:
  assumes "activeFileId app = Some i" and "activeFile app = Some f"
  shows "active_root (handleUndo (pushHistory i newRoot app)) = Some (root f) \<and>
         active_root (handleRedo (handleUndo (pushHistory i newRoot app))) = Some newRoot \<and>
         map_option redoStack (activeFile (pushHistory i newRoot' (handleUndo app))) = Some [] \<and>
         handleRedo (pushHistory i newRoot' (handleUndo app)) = pushHistory i newRoot' (handleUndo app)"
proof -
  let ?c = "commit_file newRoot f"
  have c: "activeFile (pushHistory i newRoot app) = Some ?c"
    using assms by (simp add: activeFile_pushHistory)
  have ne: "undoStack ?c \<noteq> []"
    by (simp add: commit_file_def last_n_snoc)
  have u: "activeFile (handleUndo (pushHistory i newRoot app)) = Some (undo_file ?c)"
    by (rule activeFile_handleUndo [OF c ne])
  have 1: "active_root (handleUndo (pushHistory i newRoot app)) = Some (root f)"
    by (simp add: active_root_def u undo_file_def commit_file_def last_n_snoc)
  have ne2: "redoStack (undo_file ?c) \<noteq> []"
    by (simp add: undo_file_def)
  have 2: "active_root (handleRedo (handleUndo (pushHistory i newRoot app))) = Some newRoot"
    by (simp add: active_root_def activeFile_handleRedo [OF u ne2] redo_file_def undo_file_def commit_file_def)
  have id: "activeFileId (handleUndo app) = Some i"
    using assms(1) by (simp add: handleUndo_def Let_def split: option.splits)
  have ex: "\<exists>g. activeFile (handleUndo app) = Some g"
    using assms(2) activeFile_handleUndo [OF assms(2)]
    by (cases "undoStack f = []") (simp_all add: handleUndo_def)
  have p: "activeFile (pushHistory i newRoot' (handleUndo app)) =
        map_option (commit_file newRoot') (activeFile (handleUndo app))"
    by (rule activeFile_pushHistory [OF id])
  have 3: "map_option redoStack (activeFile (pushHistory i newRoot' (handleUndo app))) = Some []"
    using ex by (auto simp: p commit_file_def)
  have 4: "handleRedo (pushHistory i newRoot' (handleUndo app)) = pushHistory i newRoot' (handleUndo app)"
    using p by (cases "activeFile (handleUndo app)") (simp_all add: handleRedo_def commit_file_def)
  from 1 2 3 4 show ?thesis by simp
qed

lemma example_app_active:
  "activeFileId example_app = Some ''doc'' \<and> activeFile example_app = Some example_file"
  by (simp add: example_app_def example_file_def activeFile_def)

text \<open>The law at the example application.\<close>

theorem undo_redo_inverse_witness:
  "activeFileId example_app = Some ''doc'' \<and> activeFile example_app = Some example_file \<and>
   active_root (handleUndo (pushHistory ''doc'' (NBTTag TInt (Some []) (VNumber 5)) example_app)) =
     Some example_root \<and>
   active_root (handleRedo (handleUndo (pushHistory ''doc'' (NBTTag TInt (Some []) (VNumber 5)) example_app))) =
     Some (NBTTag TInt (Some []) (VNumber 5))"
  using undo_redo_inverse [of example_app "''doc''" example_file "NBTTag TInt (Some []) (VNumber 5)"]
    example_app_active
  by (simp add: example_file_def)

text \<open>
  Claim C8, history bound. From documents with empty stacks, any sequence of commits,
  undos and redos leaves at most 50 snapshots on the undo stack and on the redo stack
  of every document; and a run of commits keeps on the undo stack the last 50 of the
  roots it replaced, oldest first.
\<close>

theorem history_bound:
  "(list_all (\<lambda>f. undoStack f = [] \<and> redoStack f = []) (files app) \<longrightarrow>
      list_all (\<lambda>f. length (undoStack f) \<le> 50 \<and> length (redoStack f) \<le> 50)
        (files (fold step edits app))) \<and>
   (activeFile app = Some f \<and> file_id f \<noteq> [] \<and> length (undoStack f) \<le> 50 \<longrightarrow>
      map_option undoStack (activeFile (fold step (map Commit rs) app)) =
        Some (last_n 50 (undoStack f @ butlast (root f # rs))))"
proof (intro conjI impI)
  assume "list_all (\<lambda>f. undoStack f = [] \<and> redoStack f = []) (files app)"
  then have "bounded app" by (auto simp: bounded_def list_all_iff)
  then have "bounded (fold step edits app)" by (rule bounded_fold)
  then show "list_all (\<lambda>f. length (undoStack f) \<le> 50 \<and> length (redoStack f) \<le> 50)
        (files (fold step edits app))"
    by (auto simp: bounded_def list_all_iff)
next
  assume "activeFile app = Some f \<and> file_id f \<noteq> [] \<and> length (undoStack f) \<le> 50"
  then show "map_option undoStack (activeFile (fold step (map Commit rs) app)) =
        Some (last_n 50 (undoStack f @ butlast (root f # rs)))"
    using commits_undoStack by blast
qed

text \<open>The bound at the example application.\<close>

theorem history_bound_witness:
  "list_all (\<lambda>f. undoStack f = [] \<and> redoStack f = []) (files example_app) \<and>
   list_all (\<lambda>f. length (undoStack f) \<le> 50 \<and> length (redoStack f) \<le> 50)
     (files (fold step [Commit (NBTTag TInt (Some []) (VNumber 5)), Undo, Redo, Undo] example_app)) \<and>
   activeFile example_app = Some example_file \<and> file_id example_file \<noteq> [] \<and>
   length (undoStack example_file) \<le> 50 \<and>
   map_option undoStack (activeFile (fold step
       (map Commit [NBTTag TInt (Some []) (VNumber 5), NBTTag TInt (Some []) (VNumber 6)]) example_app)) =
     Some [example_root, NBTTag TInt (Some []) (VNumber 5)]"
proof -
  have h1: "list_all (\<lambda>f. undoStack f = [] \<and> redoStack f = []) (files example_app)"
    by (simp add: example_app_def example_file_def)
  have h2: "activeFile example_app = Some example_file \<and> file_id example_file \<noteq> [] \<and>
      length (undoStack example_file) \<le> 50"
    using example_app_active by (simp add: example_file_def)
  have l: "last_n 50 [example_root, NBTTag TInt (Some []) (VNumber 5)] =
      [example_root, NBTTag TInt (Some []) (VNumber 5)]"
    by (simp add: last_n_def)
  show ?thesis
    using h1 h2
      history_bound [of example_app "[Commit (NBTTag TInt (Some []) (VNumber 5)), Undo, Redo, Undo]"
        example_file "[NBTTag TInt (Some []) (VNumber 5), NBTTag TInt (Some []) (VNumber 6)]"]
    by (simp add: l) (simp add: example_file_def l)
qed

text \<open>
  Claim C9, add child. On a Compound the new child is always a String tag named
  \<open>new_tag\<close> with the value \<open>value\<close>, appended at the end, whatever kind is passed.
  On a List the new child is unnamed, of the declared element kind, appended at the
  end, with the number zero for the numeric kinds, the empty text for String and the
  empty child sequence for Compound.
\<close>

theorem add_child_defaults:
  "(tag_type t = TCompound \<and> tag_value t = VTags cs \<longrightarrow>
      handleAddChild k t =
        Inr (Some (NBTTag TCompound (tag_name t)
          (VTags (cs @ [NBTTag TString (Some ''new_tag'') (VString ''value'')]))))) \<and>
   (tag_type t = TList \<and> tag_value t = VList itemType items \<longrightarrow>
      (\<exists>d. handleAddChild k t =
             Inr (Some (NBTTag TList (tag_name t) (VList itemType (items @ [NBTTag itemType None d])))) \<and>
           (itemType \<in> {TByte, TShort, TInt, TLong, TFloat, TDouble} \<longrightarrow> d = VNumber 0) \<and>
           (itemType = TString \<longrightarrow> d = VString []) \<and>
           (itemType = TCompound \<longrightarrow> d = VTags [])))"
  by (auto simp: handleAddChild_def Let_def)

text \<open>Both targets at concrete tags.\<close>

theorem add_child_defaults_witness:
  "handleAddChild TInt (NBTTag TCompound (Some ''c'') (VTags [])) =
     Inr (Some (NBTTag TCompound (Some ''c'') (VTags [NBTTag TString (Some ''new_tag'') (VString ''value'')]))) \<and>
   (\<exists>d. handleAddChild TList (NBTTag TList (Some ''l'') (VList TLong [])) =
          Inr (Some (NBTTag TList (Some ''l'') (VList TLong [NBTTag TLong None d]))) \<and> d = VNumber 0)"
  using add_child_defaults [of "NBTTag TCompound (Some ''c'') (VTags [])" "[]" TInt]
    add_child_defaults [of "NBTTag TList (Some ''l'') (VList TLong [])" _ TList TLong "[]"]
  by simp

text \<open>
  The kind passed to \<open>handleAddChild\<close> is not the kind of the new child of a Compound,
  and the new element of a List of Lists holds the number zero, not an empty list.
\<close>

theorem add_child_counterexample:
  "handleAddChild TInt (NBTTag TCompound (Some ''c'') (VTags [])) =
     Inr (Some (NBTTag TCompound (Some ''c'') (VTags [NBTTag TString (Some ''new_tag'') (VString ''value'')]))) \<and>
   handleAddChild TList (NBTTag TList (Some ''l'') (VList TList [])) =
     Inr (Some (NBTTag TList (Some ''l'') (VList TList [NBTTag TList None (VNumber 0)])))"
  by (simp add: handleAddChild_def)

text \<open>
  Claim C10, duplicate names. Take any Compound of a tree, at the root or below it, with
  two children of the same name. \<open>flattenTree\<close> gives both the same path
  \<open>${parentPath}.${child.name}\<close>, and the flattened sequence of the whole tree holds
  that path at least once for every child of that name, hence at least twice. For
  every path set that contains the shared path and none of the paths of the Compound
  and of the containers above it, \<open>deleteNodesByPaths\<close> returns the tree of the
  specification's description, the Compound is found in it at the place given by
  \<open>place_after\<close>, and its children are exactly the children whose path is not in the
  set, each pruned in turn: none of them has the shared name, and at least two children
  are gone. With the shared path alone in the set, such a place always exists, and the
  children left are exactly those of another name: one path removes two nodes or more.
\<close>

theorem duplicate_name_collision:
  assumes "shaped rootTag"
    and "node_at rootTag ''root'' ks = Some (NBTTag TCompound nm (VTags cs), p)"
    and "i < j" and "j < length cs" and "tag_name (cs ! i) = tag_name (cs ! j)"
  shows "child_path p (cs ! i) = child_path p (cs ! j) \<and>
    (\<exists>ps. flattenTree rootTag ''root'' = Inr ps \<and>
       length (filter (\<lambda>c. name_text (tag_name c) = name_text (tag_name (cs ! i))) cs)
         \<le> count_list ps (child_path p (cs ! i)) \<and>
       2 \<le> count_list ps (child_path p (cs ! i)) \<and> \<not> distinct ps) \<and>
    (child_path p (cs ! i) \<in> S \<and> place_after S rootTag ''root'' ks = Some ks' \<longrightarrow>
       deleteNodesByPaths rootTag S = Inr (pruned S rootTag ''root'') \<and>
       map_option fst (node_at (pruned S rootTag ''root'') ''root'' ks') =
         Some (NBTTag TCompound nm (VTags (map (\<lambda>c. pruned S c (child_path p c))
           (filter (\<lambda>c. child_path p c \<notin> S \<and>
                        name_text (tag_name c) \<noteq> name_text (tag_name (cs ! i))) cs)))) \<and>
       length (filter (\<lambda>c. child_path p c \<notin> S \<and>
                        name_text (tag_name c) \<noteq> name_text (tag_name (cs ! i))) cs) + 2
         \<le> length cs) \<and>
    (\<exists>ks1. place_after {child_path p (cs ! i)} rootTag ''root'' ks = Some ks1 \<and>
       deleteNodesByPaths rootTag {child_path p (cs ! i)} =
         Inr (pruned {child_path p (cs ! i)} rootTag ''root'') \<and>
       map_option fst (node_at (pruned {child_path p (cs ! i)} rootTag ''root'') ''root'' ks1) =
         Some (NBTTag TCompound nm (VTags (map (\<lambda>c. pruned {child_path p (cs ! i)} c (child_path p c))
           (filter (\<lambda>c. name_text (tag_name c) \<noteq> name_text (tag_name (cs ! i))) cs)))))"
proof (intro conjI impI)
  show "child_path p (cs ! i) = child_path p (cs ! j)"
    using assms(5) by (simp add: child_path_def)
  show "\<exists>ps. flattenTree rootTag ''root'' = Inr ps \<and>
       length (filter (\<lambda>c. name_text (tag_name c) = name_text (tag_name (cs ! i))) cs)
         \<le> count_list ps (child_path p (cs ! i)) \<and>
       2 \<le> count_list ps (child_path p (cs ! i)) \<and> \<not> distinct ps"
    using assms by (rule duplicate_flatten)
next
  assume a: "child_path p (cs ! i) \<in> S \<and> place_after S rootTag ''root'' ks = Some ks'"
  then have q: "child_path p (cs ! i) \<in> S" and pl: "place_after S rootTag ''root'' ks = Some ks'"
    by simp_all
  note d = duplicate_delete_at [OF assms q pl]
  show "deleteNodesByPaths rootTag S = Inr (pruned S rootTag ''root'')"
    by (rule d(1))
  show "map_option fst (node_at (pruned S rootTag ''root'') ''root'' ks') =
         Some (NBTTag TCompound nm (VTags (map (\<lambda>c. pruned S c (child_path p c))
           (filter (\<lambda>c. child_path p c \<notin> S \<and>
                        name_text (tag_name c) \<noteq> name_text (tag_name (cs ! i))) cs))))"
    by (rule d(2))
  show "length (filter (\<lambda>c. child_path p c \<notin> S \<and>
                        name_text (tag_name c) \<noteq> name_text (tag_name (cs ! i))) cs) + 2
         \<le> length cs"
    by (rule d(3))
next
  let ?q = "child_path p (cs ! i)"
  from place_after_single [OF assms(2), of "cs ! i"] obtain ks1 where
    pl: "place_after {?q} rootTag ''root'' ks = Some ks1"
    by blast
  have q: "?q \<in> {?q}"
    by simp
  note d = duplicate_delete_at [OF assms q pl]
  have "(\<lambda>c. child_path p c \<notin> {?q} \<and> name_text (tag_name c) \<noteq> name_text (tag_name (cs ! i))) =
        (\<lambda>c. name_text (tag_name c) \<noteq> name_text (tag_name (cs ! i)))"
    by (auto simp: child_path_def)
  with d(2) have "map_option fst (node_at (pruned {?q} rootTag ''root'') ''root'' ks1) =
      Some (NBTTag TCompound nm (VTags (map (\<lambda>c. pruned {?q} c (child_path p c))
        (filter (\<lambda>c. name_text (tag_name c) \<noteq> name_text (tag_name (cs ! i))) cs))))"
    by simp
  with pl d(1) show "\<exists>ks1. place_after {?q} rootTag ''root'' ks = Some ks1 \<and>
       deleteNodesByPaths rootTag {?q} = Inr (pruned {?q} rootTag ''root'') \<and>
       map_option fst (node_at (pruned {?q} rootTag ''root'') ''root'' ks1) =
         Some (NBTTag TCompound nm (VTags (map (\<lambda>c. pruned {?q} c (child_path p c))
           (filter (\<lambda>c. name_text (tag_name c) \<noteq> name_text (tag_name (cs ! i))) cs))))"
    by blast
qed

text \<open>
  The collision below a List: the second element of \<open>l\<close> has two children named \<open>x\<close>.
  With the first element deleted too, the Compound moves from position 1 to position 0
  and keeps the child \<open>y\<close> alone; the path \<open>root.l[1].x\<close> alone removes both \<open>x\<close>.
\<close>

theorem duplicate_name_collision_witness:
  "shaped nested_root \<and>
   node_at nested_root ''root'' [0, 1] =
     Some (NBTTag TCompound None (VTags
       [NBTTag TInt (Some ''x'') (VNumber 1),
        NBTTag TInt (Some ''y'') (VNumber 2),
        NBTTag TInt (Some ''x'') (VNumber 3)]), ''root.l[1]'') \<and>
   (0 :: nat) < 2 \<and>
   ''root.l[1].x'' \<in> {''root.l[0]'', ''root.l[1].x''} \<and>
   place_after {''root.l[0]'', ''root.l[1].x''} nested_root ''root'' [0, 1] = Some [0, 0] \<and>
   (\<exists>ps. flattenTree nested_root ''root'' = Inr ps \<and> 2 \<le> count_list ps ''root.l[1].x'' \<and>
      \<not> distinct ps) \<and>
   deleteNodesByPaths nested_root {''root.l[0]'', ''root.l[1].x''} =
     Inr (NBTTag TCompound (Some []) (VTags
       [NBTTag TList (Some ''l'') (VList TCompound
          [NBTTag TCompound None (VTags [NBTTag TInt (Some ''y'') (VNumber 2)])])])) \<and>
   map_option fst (node_at (pruned {''root.l[0]'', ''root.l[1].x''} nested_root ''root'') ''root'' [0, 0]) =
     Some (NBTTag TCompound None (VTags [NBTTag TInt (Some ''y'') (VNumber 2)])) \<and>
   deleteNodesByPaths nested_root {''root.l[1].x''} =
     Inr (NBTTag TCompound (Some []) (VTags
       [NBTTag TList (Some ''l'') (VList TCompound
          [NBTTag TCompound None (VTags []),
           NBTTag TCompound None (VTags [NBTTag TInt (Some ''y'') (VNumber 2)])])]))"
proof -
  let ?cs = "[NBTTag TInt (Some ''x'') (VNumber 1),
        NBTTag TInt (Some ''y'') (VNumber 2),
        NBTTag TInt (Some ''x'') (VNumber 3)]"
  let ?S = "{''root.l[0]'', ''root.l[1].x''}"
  have h1: "shaped nested_root"
    by code_simp
  have h2: "node_at nested_root ''root'' [0, 1] = Some (NBTTag TCompound None (VTags ?cs), ''root.l[1]'')"
    by code_simp
  have h3: "(0 :: nat) < 2" and h4: "2 < length ?cs" and h5: "tag_name (?cs ! 0) = tag_name (?cs ! 2)"
    by simp_all
  have q: "child_path ''root.l[1]'' (?cs ! 0) = ''root.l[1].x''"
    by (simp add: child_path_def name_text_def)
  have m: "''root.l[1].x'' \<in> ?S"
    by simp
  have pl: "place_after ?S nested_root ''root'' [0, 1] = Some [0, 0]"
    by code_simp
  have p1: "pruned ?S nested_root ''root'' =
      NBTTag TCompound (Some []) (VTags
       [NBTTag TList (Some ''l'') (VList TCompound
          [NBTTag TCompound None (VTags [NBTTag TInt (Some ''y'') (VNumber 2)])])])"
    by code_simp
  have p2: "pruned {''root.l[1].x''} nested_root ''root'' =
      NBTTag TCompound (Some []) (VTags
       [NBTTag TList (Some ''l'') (VList TCompound
          [NBTTag TCompound None (VTags []),
           NBTTag TCompound None (VTags [NBTTag TInt (Some ''y'') (VNumber 2)])])])"
    by code_simp
  have keep: "map (\<lambda>c. pruned ?S c (child_path ''root.l[1]'' c))
      (filter (\<lambda>c. child_path ''root.l[1]'' c \<notin> ?S \<and> name_text (tag_name c) \<noteq> name_text (tag_name (?cs ! 0))) ?cs) =
      [NBTTag TInt (Some ''y'') (VNumber 2)]"
    by (simp add: child_path_def name_text_def)
  note inst = duplicate_name_collision [OF h1 h2 h3 h4 h5, of ?S "[0, 0]", unfolded q]
  from inst have 1: "\<exists>ps. flattenTree nested_root ''root'' = Inr ps \<and>
      2 \<le> count_list ps ''root.l[1].x'' \<and> \<not> distinct ps"
    by blast
  from inst m pl have 2: "deleteNodesByPaths nested_root ?S = Inr (pruned ?S nested_root ''root'')"
    and 3: "map_option fst (node_at (pruned ?S nested_root ''root'') ''root'' [0, 0]) =
      Some (NBTTag TCompound None (VTags (map (\<lambda>c. pruned ?S c (child_path ''root.l[1]'' c))
        (filter (\<lambda>c. child_path ''root.l[1]'' c \<notin> ?S \<and>
            name_text (tag_name c) \<noteq> name_text (tag_name (?cs ! 0))) ?cs))))"
    by blast+
  from inst have 4: "deleteNodesByPaths nested_root {''root.l[1].x''} =
      Inr (pruned {''root.l[1].x''} nested_root ''root'')"
    by blast
  from 2 have r2: "deleteNodesByPaths nested_root ?S =
     Inr (NBTTag TCompound (Some []) (VTags
       [NBTTag TList (Some ''l'') (VList TCompound
          [NBTTag TCompound None (VTags [NBTTag TInt (Some ''y'') (VNumber 2)])])]))"
    by (simp only: p1)
  from 3 have r3: "map_option fst (node_at (pruned ?S nested_root ''root'') ''root'' [0, 0]) =
     Some (NBTTag TCompound None (VTags [NBTTag TInt (Some ''y'') (VNumber 2)]))"
    by (simp only: keep)
  from 4 have r4: "deleteNodesByPaths nested_root {''root.l[1].x''} =
     Inr (NBTTag TCompound (Some []) (VTags
       [NBTTag TList (Some ''l'') (VList TCompound
          [NBTTag TCompound None (VTags []),
           NBTTag TCompound None (VTags [NBTTag TInt (Some ''y'') (VNumber 2)])])]))"
    by (simp only: p2)
  from h1 h2 h3 m pl 1 r2 r3 r4 show ?thesis
    by blast
qed

text \<open>
  Claim C2, 64-bit fidelity. For every 64-bit signed integer \<open>v\<close>, the minimum and the
  maximum included, \<open>parseLong\<close> reads back from the eight bytes of \<open>writeLong\<close> the
  value \<open>v\<close>; the two halves that \<open>writeLong\<close> turns into numbers are below 53 bits,
  so that the conversion is exact; and the Long payload of a tag is written and read
  through these two functions.
\<close>

theorem long_fidelity:
  assumes "- (2 ^ 63) \<le> v" and "v < 2 ^ 63"
  shows "parseLong (writeLong v) 0 = Inr v \<and>
         number_of_bigint (drop_bit 32 v) = drop_bit 32 v \<and>
         number_of_bigint (v AND 4294967295) = v AND 4294967295 \<and>
         writeFlat P TLong (VBigInt v) = Inr (writeLong v) \<and>
         readFlat P (writeLong v) 0 TLong = Inr (VBigInt v, 8)"
proof -
  have p: "parseLong (writeLong v) 0 = Inr v"
    using parseLong_writeLong [OF assms, of "[]" "[]"] by simp
  note hr = drop_bit_32_range [OF assms]
  have h: "number_of_bigint (drop_bit 32 v) = drop_bit 32 v"
    using hr by (intro number_of_bigint_id) (simp add: abs_le_iff)
  have "0 \<le> take_bit 32 v" "take_bit 32 v < 2 ^ 32"
    using take_bit_int_less_exp [of 32 v] by simp_all
  then have l: "number_of_bigint (v AND 4294967295) = v AND 4294967295"
    unfolding and_32 by (intro number_of_bigint_id) (simp add: abs_le_iff)
  show ?thesis
    by (simp add: p h l writeFlat_def readFlat_def)
qed

text \<open>The minimum, the maximum, and a value of more than 53 bits.\<close>

theorem long_fidelity_witness:
  "- (2 ^ 63) \<le> (- (2 ^ 63) :: int) \<and> (- (2 ^ 63) :: int) < 2 ^ 63 \<and>
   parseLong (writeLong (- (2 ^ 63))) 0 = Inr (- (2 ^ 63)) \<and>
   parseLong (writeLong (2 ^ 63 - 1)) 0 = Inr (2 ^ 63 - 1) \<and>
   parseLong (writeLong (2 ^ 53 + 1)) 0 = Inr (2 ^ 53 + 1)"
  using long_fidelity [of "- (2 ^ 63)"] long_fidelity [of "2 ^ 63 - 1"] long_fidelity [of "2 ^ 53 + 1"]
  by simp

text \<open>
  Claim C4, gzip framing. A buffer that starts with 1F 8B is decompressed, and the tree
  is read from the decompressed bytes with the flag true; when the decompression fails
  the call fails with the gzip error and the raw bytes are not read. A buffer that does
  not start with 1F 8B is read as it is, with the flag false, whatever the decompression
  would do. The flag of every result is the presence of the magic number.
\<close>

theorem gzip_framing:
  "(gzip_magic file \<and> ungzip P file = None \<longrightarrow> parse P fuel file = Some (Inl InvalidGzip)) \<and>
   (gzip_magic file \<and> ungzip P file = Some inflated \<longrightarrow>
      parse P fuel file =
        map_option (map_sum (\<lambda>e. e) (\<lambda>(t, off). (t, True))) (decode P fuel inflated)) \<and>
   (\<not> gzip_magic file \<longrightarrow>
      parse P fuel file =
        map_option (map_sum (\<lambda>e. e) (\<lambda>(t, off). (t, False))) (decode P fuel file) \<and>
      parse (P\<lparr>ungzip := u\<rparr>) fuel file = parse P fuel file) \<and>
   (parse P fuel file = Some (Inr (t, c)) \<longrightarrow> c = gzip_magic file)"
proof (intro conjI impI)
  assume "gzip_magic file \<and> ungzip P file = None"
  then show "parse P fuel file = Some (Inl InvalidGzip)"
    by (simp add: parse_def)
next
  assume "gzip_magic file \<and> ungzip P file = Some inflated"
  then show "parse P fuel file =
        map_option (map_sum (\<lambda>e. e) (\<lambda>(t, off). (t, True))) (decode P fuel inflated)"
    by (simp add: parse_def)
next
  assume "\<not> gzip_magic file"
  then show "parse P fuel file =
        map_option (map_sum (\<lambda>e. e) (\<lambda>(t, off). (t, False))) (decode P fuel file)"
    by (simp add: parse_def)
next
  assume "\<not> gzip_magic file"
  then show "parse (P\<lparr>ungzip := u\<rparr>) fuel file = parse P fuel file"
    by (simp add: parse_def decode_def reader_ungzip)
next
  assume p: "parse P fuel file = Some (Inr (t, c))"
  show "c = gzip_magic file"
  proof (cases "gzip_magic file")
    case True
    with p obtain inflated where "ungzip P file = Some inflated"
      by (cases "ungzip P file") (auto simp: parse_def)
    with p True have "map_option (map_sum (\<lambda>e. e) (\<lambda>(t, off). (t, True))) (decode P fuel inflated) =
        Some (Inr (t, c))"
      by (simp add: parse_def)
    with True show ?thesis
      using flag_of_result by fastforce
  next
    case False
    with p have "map_option (map_sum (\<lambda>e. e) (\<lambda>(t, off). (t, False))) (decode P fuel file) =
        Some (Inr (t, c))"
      by (simp add: parse_def)
    with False show ?thesis
      using flag_of_result by fastforce
  qed
qed

text \<open>
  The three cases at concrete buffers; the second platform decompresses by dropping the
  two bytes of the magic number.
\<close>

theorem gzip_framing_witness:
  "gzip_magic [31, 139, 0] \<and> ungzip ascii_platform [31, 139, 0] = None \<and>
   parse ascii_platform 3 [31, 139, 0] = Some (Inl InvalidGzip) \<and>
   gzip_magic (31 # 139 # xp_bytes) \<and>
   ungzip (ascii_platform\<lparr>ungzip := \<lambda>bs. Some (drop 2 bs)\<rparr>) (31 # 139 # xp_bytes) = Some xp_bytes \<and>
   parse (ascii_platform\<lparr>ungzip := \<lambda>bs. Some (drop 2 bs)\<rparr>) 3 (31 # 139 # xp_bytes) =
     Some (Inr (xp_root, True)) \<and>
   \<not> gzip_magic xp_bytes \<and>
   parse ascii_platform 3 xp_bytes = Some (Inr (xp_root, False))"
proof -
  have m1: "gzip_magic [31, 139, 0]" and m2: "gzip_magic (31 # 139 # xp_bytes)"
    and m3: "\<not> gzip_magic xp_bytes"
    by (simp_all add: gzip_magic_def u8_at_def xp_bytes_def)
  have u1: "ungzip ascii_platform [31, 139, 0] = None"
    by (simp add: ascii_platform_def)
  have u2: "ungzip (ascii_platform\<lparr>ungzip := \<lambda>bs. Some (drop 2 bs)\<rparr>) (31 # 139 # xp_bytes) = Some xp_bytes"
    by simp
  have d: "decode (ascii_platform\<lparr>ungzip := \<lambda>bs. Some (drop 2 bs)\<rparr>) 3 xp_bytes = Some (Inr (xp_root, 18))"
    using xp_decode by (simp add: decode_def reader_ungzip)
  let ?P = "ascii_platform\<lparr>ungzip := \<lambda>bs. Some (drop 2 bs)\<rparr>"
  have 1: "parse ascii_platform 3 [31, 139, 0] = Some (Inl InvalidGzip)"
    using gzip_framing [of "[31, 139, 0]" ascii_platform 3 "[]" "ungzip ascii_platform" xp_root True]
      m1 u1 by blast
  have "parse ?P 3 (31 # 139 # xp_bytes) =
      map_option (map_sum (\<lambda>e. e) (\<lambda>(t, off). (t, True))) (decode ?P 3 xp_bytes)"
    using gzip_framing [of "31 # 139 # xp_bytes" ?P 3 xp_bytes "ungzip ?P" xp_root True]
      m2 u2 by blast
  then have 2: "parse ?P 3 (31 # 139 # xp_bytes) = Some (Inr (xp_root, True))"
    by (simp add: d)
  have "parse ascii_platform 3 xp_bytes =
      map_option (map_sum (\<lambda>e. e) (\<lambda>(t, off). (t, False))) (decode ascii_platform 3 xp_bytes)"
    using gzip_framing [of xp_bytes ascii_platform 3 "[]" "ungzip ascii_platform" xp_root True]
      m3 by blast
  then have 3: "parse ascii_platform 3 xp_bytes = Some (Inr (xp_root, False))"
    by (simp add: xp_decode)
  from m1 m2 m3 u1 u2 1 2 3 show ?thesis
    by blast
qed

text \<open>
  Claim C1, round trip. For every well-formed tree (root named and not of kind End,
  children of a Compound named, elements of a List unnamed and of the declared kind,
  every payload within what its kind holds), the uncompressed encoder returns bytes, and
  \<open>parse\<close> reads from them the same tree with the flag false, given the fuel of the tree
  or more.
\<close>

theorem round_trip:
  assumes "well_formed P t"
  shows "\<exists>bytes. NBTWriter_write P t False = Inr bytes \<and>
           (\<forall>fuel. tag_fuel t \<le> fuel \<longrightarrow> parse P fuel bytes = Some (Inr (t, False)))"
proof -
  from assms have wf: "wf_payload P t" and nm: "named_ok P t"
    by (simp_all add: well_formed_def)
  from writeTag_wf [OF wf] obtain bytes where w: "writeTag P t True False = Inr bytes"
    by blast
  have ok: "child_ok P t bytes"
    using wf_payload_body_ok [OF wf] wf nm w by (rule child_from_body)
  have d: "decode P fuel bytes = Some (Inr (t, length bytes))" if "tag_fuel t \<le> fuel" for fuel
  proof -
    have "readTag P fuel ([] @ bytes @ []) (length ([] :: byte list)) True None None =
        Some (Inr (t, length ([] :: byte list) + length bytes))"
      using ok that unfolding child_ok_def by blast
    then show ?thesis by (simp add: decode_def)
  qed
  have m: "\<not> gzip_magic bytes"
    using wf nm w by (rule named_bytes)
  have "parse P fuel bytes = Some (Inr (t, False))" if "tag_fuel t \<le> fuel" for fuel
    using d [OF that] m by (simp add: parse_def)
  then show ?thesis
    by (simp add: NBTWriter_write_def w)
qed

text \<open>The scenario of the specification: the tree, its eighteen bytes, and the tree read back.\<close>

theorem round_trip_witness:
  "well_formed ascii_platform xp_root \<and>
   NBTWriter_write ascii_platform xp_root False = Inr xp_bytes \<and>
   tag_fuel xp_root \<le> 4 \<and>
   parse ascii_platform 4 xp_bytes = Some (Inr (xp_root, False))"
proof -
  have f: "tag_fuel xp_root \<le> 4"
    by (simp add: xp_root_def)
  from round_trip [OF xp_well_formed] obtain bytes where
    "NBTWriter_write ascii_platform xp_root False = Inr bytes"
    "\<forall>fuel. tag_fuel xp_root \<le> fuel \<longrightarrow> parse ascii_platform fuel bytes = Some (Inr (xp_root, False))"
    by blast
  with f have "parse ascii_platform 4 xp_bytes = Some (Inr (xp_root, False))"
    by (simp add: xp_encode)
  with xp_well_formed xp_encode f show ?thesis by simp
qed

text \<open>
  Claim C3, what the decoder rejects. A buffer cut before the end of a successful read
  makes \<open>decode\<close> raise a RangeError (and a successful read ends within the buffer),
  and so does a ByteArray whose length is below zero, wherever \<open>readTag\<close> reads it;
  an error is a result without a tree. The decoder checks nothing else: an IntArray
  or a LongArray whose length is below zero is read as an empty array, a List of
  kind End with any count as that many End tags, taking no bytes, and a List of any
  kind whose count is below zero as an empty List. (\<open>decode\<close> is \<open>readTag\<close> at offset 0,
  and an error of a nested read is the result of every enclosing one.)
\<close>

theorem decoder_rejection:
  "(decode P fuel buf = Some (Inr (t, n)) \<and> k < n \<longrightarrow>
      n \<le> length buf \<and> decode P fuel (take k buf) = Some (Inl RangeError)) \<and>
   (readType ba off ft = Inr (TByteArray, o1) \<and> readName P ba o1 r ft fn = Inr (nm, o2) \<and>
    getInt32 ba o2 = Inr len \<and> len < 0 \<longrightarrow>
      readTag P (Suc fuel) ba off r ft fn = Some (Inl RangeError)) \<and>
   (readType bi off ft = Inr (TIntArray, o1) \<and> readName P bi o1 r ft fn = Inr (nm, o2) \<and>
    getInt32 bi o2 = Inr len \<and> len < 0 \<longrightarrow>
      readTag P (Suc fuel) bi off r ft fn = Some (Inr (NBTTag TIntArray nm (VNumbers []), o2 + 4))) \<and>
   (readType bl off ft = Inr (TLongArray, o1) \<and> readName P bl o1 r ft fn = Inr (nm, o2) \<and>
    getInt32 bl o2 = Inr len \<and> len < 0 \<longrightarrow>
      readTag P (Suc fuel) bl off r ft fn = Some (Inr (NBTTag TLongArray nm (VBigInts []), o2 + 4))) \<and>
   (readType be off ft = Inr (TList, o1) \<and> readName P be o1 r ft fn = Inr (nm, o2) \<and>
    getUint8 be o2 = Inr ib \<and> TagType_of_byte ib = TEnd \<and>
    getInt32 be (o2 + 1) = Inr cnt \<and> nat cnt < fuel \<longrightarrow>
      readTag P (Suc fuel) be off r ft fn =
        Some (Inr (NBTTag TList nm (VList TEnd (replicate (nat cnt) (NBTTag TEnd None VNull))), o2 + 5))) \<and>
   (readType bn off ft = Inr (TList, o1) \<and> readName P bn o1 r ft fn = Inr (nm, o2) \<and>
    getUint8 bn o2 = Inr jb \<and> getInt32 bn (o2 + 1) = Inr len \<and> len < 0 \<longrightarrow>
      readTag P (Suc (Suc fuel)) bn off r ft fn =
        Some (Inr (NBTTag TList nm (VList (TagType_of_byte jb) []), o2 + 5)))"
proof (intro conjI impI)
  assume a: "decode P fuel buf = Some (Inr (t, n)) \<and> k < n"
  then show "n \<le> length buf" using decode_cut(1) by blast
  from a show "decode P fuel (take k buf) = Some (Inl RangeError)" using decode_cut(2) by blast
next
  assume "readType ba off ft = Inr (TByteArray, o1) \<and> readName P ba o1 r ft fn = Inr (nm, o2) \<and>
    getInt32 ba o2 = Inr len \<and> len < 0"
  then show "readTag P (Suc fuel) ba off r ft fn = Some (Inl RangeError)"
    using readTag_negative_ByteArray by blast
next
  assume "readType bi off ft = Inr (TIntArray, o1) \<and> readName P bi o1 r ft fn = Inr (nm, o2) \<and>
    getInt32 bi o2 = Inr len \<and> len < 0"
  then show "readTag P (Suc fuel) bi off r ft fn = Some (Inr (NBTTag TIntArray nm (VNumbers []), o2 + 4))"
    using readTag_negative_IntArray by blast
next
  assume "readType bl off ft = Inr (TLongArray, o1) \<and> readName P bl o1 r ft fn = Inr (nm, o2) \<and>
    getInt32 bl o2 = Inr len \<and> len < 0"
  then show "readTag P (Suc fuel) bl off r ft fn = Some (Inr (NBTTag TLongArray nm (VBigInts []), o2 + 4))"
    using readTag_negative_LongArray by blast
next
  assume "readType be off ft = Inr (TList, o1) \<and> readName P be o1 r ft fn = Inr (nm, o2) \<and>
    getUint8 be o2 = Inr ib \<and> TagType_of_byte ib = TEnd \<and>
    getInt32 be (o2 + 1) = Inr cnt \<and> nat cnt < fuel"
  then show "readTag P (Suc fuel) be off r ft fn =
        Some (Inr (NBTTag TList nm (VList TEnd (replicate (nat cnt) (NBTTag TEnd None VNull))), o2 + 5))"
    using readTag_End_list by blast
next
  assume "readType bn off ft = Inr (TList, o1) \<and> readName P bn o1 r ft fn = Inr (nm, o2) \<and>
    getUint8 bn o2 = Inr jb \<and> getInt32 bn (o2 + 1) = Inr len \<and> len < 0"
  then show "readTag P (Suc (Suc fuel)) bn off r ft fn =
        Some (Inr (NBTTag TList nm (VList (TagType_of_byte jb) []), o2 + 5))"
    using readTag_negative_List [of bn off ft o1 P r fn nm o2 jb len fuel] by simp
qed

theorem decoder_rejection_witness:
  "decode ascii_platform 3 xp_bytes = Some (Inr (xp_root, 18)) \<and> (17 :: nat) < 18 \<and>
   18 \<le> length xp_bytes \<and>
   decode ascii_platform 3 (take 17 xp_bytes) = Some (Inl RangeError) \<and>
   getInt32 [7, 0, 0, 255, 255, 255, 255] 3 = Inr (- 1) \<and>
   decode ascii_platform (Suc 3) [7, 0, 0, 255, 255, 255, 255] = Some (Inl RangeError) \<and>
   getInt32 [11, 0, 0, 255, 255, 255, 255] 3 = Inr (- 1) \<and>
   decode ascii_platform (Suc 3) [11, 0, 0, 255, 255, 255, 255] =
     Some (Inr (NBTTag TIntArray (Some []) (VNumbers []), 3 + 4)) \<and>
   getInt32 [12, 0, 0, 255, 255, 255, 255] 3 = Inr (- 1) \<and>
   decode ascii_platform (Suc 3) [12, 0, 0, 255, 255, 255, 255] =
     Some (Inr (NBTTag TLongArray (Some []) (VBigInts []), 3 + 4)) \<and>
   getUint8 [9, 0, 0, 0, 0, 0, 0, 2] 3 = Inr 0 \<and> getInt32 [9, 0, 0, 0, 0, 0, 0, 2] (3 + 1) = Inr 2 \<and>
   decode ascii_platform (Suc 3) [9, 0, 0, 0, 0, 0, 0, 2] =
     Some (Inr (NBTTag TList (Some [])
       (VList TEnd (replicate (nat 2) (NBTTag TEnd None VNull))), 3 + 5)) \<and>
   getUint8 [9, 0, 0, 3, 255, 255, 255, 255] 3 = Inr 3 \<and>
   getInt32 [9, 0, 0, 3, 255, 255, 255, 255] (3 + 1) = Inr (- 1) \<and>
   decode ascii_platform (Suc (Suc 3)) [9, 0, 0, 3, 255, 255, 255, 255] =
     Some (Inr (NBTTag TList (Some []) (VList (TagType_of_byte 3) []), 3 + 5))"
proof -
  let ?ba = "[7, 0, 0, 255, 255, 255, 255] :: byte list"
  let ?bi = "[11, 0, 0, 255, 255, 255, 255] :: byte list"
  let ?bl = "[12, 0, 0, 255, 255, 255, 255] :: byte list"
  let ?be = "[9, 0, 0, 0, 0, 0, 0, 2] :: byte list"
  let ?bn = "[9, 0, 0, 3, 255, 255, 255, 255] :: byte list"
  have d: "decode ascii_platform 3 xp_bytes = Some (Inr (xp_root, 18))"
    by (rule xp_decode)
  have k: "(17 :: nat) < 18"
    by simp
  have ta: "readType ?ba 0 None = Inr (TByteArray, 1)"
    and ti: "readType ?bi 0 None = Inr (TIntArray, 1)"
    and tl: "readType ?bl 0 None = Inr (TLongArray, 1)"
    and te: "readType ?be 0 None = Inr (TList, 1)"
    and tn: "readType ?bn 0 None = Inr (TList, 1)"
    by code_simp+
  have na: "readName ascii_platform ?ba 1 True None None = Inr (Some [], 3)"
    and ni: "readName ascii_platform ?bi 1 True None None = Inr (Some [], 3)"
    and nl: "readName ascii_platform ?bl 1 True None None = Inr (Some [], 3)"
    and ne: "readName ascii_platform ?be 1 True None None = Inr (Some [], 3)"
    and nn: "readName ascii_platform ?bn 1 True None None = Inr (Some [], 3)"
    by code_simp+
  have la: "getInt32 ?ba 3 = Inr (- 1)"
    and li: "getInt32 ?bi 3 = Inr (- 1)"
    and ll: "getInt32 ?bl 3 = Inr (- 1)"
    and le: "getInt32 ?be (3 + 1) = Inr 2"
    and ln: "getInt32 ?bn (3 + 1) = Inr (- 1)"
    by code_simp+
  have ie: "getUint8 ?be 3 = Inr 0" and ie': "TagType_of_byte 0 = TEnd"
    and jn: "getUint8 ?bn 3 = Inr 3"
    by code_simp+
  have neg: "(- 1 :: int) < 0" and cnt: "nat 2 < 3"
    by simp_all
  note inst = decoder_rejection [of ascii_platform 3 xp_bytes xp_root 18 17
      ?ba 0 None 1 True None "Some []" 3 "- 1" ?bi ?bl ?be 0 2 ?bn 3]
  from inst d k have 1: "18 \<le> length xp_bytes"
    and 2: "decode ascii_platform 3 (take 17 xp_bytes) = Some (Inl RangeError)"
    by blast+
  from inst ta na la neg have 3: "decode ascii_platform (Suc 3) ?ba = Some (Inl RangeError)"
    unfolding decode_def by blast
  from inst ti ni li neg have 4: "decode ascii_platform (Suc 3) ?bi =
      Some (Inr (NBTTag TIntArray (Some []) (VNumbers []), 3 + 4))"
    unfolding decode_def by blast
  from inst tl nl ll neg have 5: "decode ascii_platform (Suc 3) ?bl =
      Some (Inr (NBTTag TLongArray (Some []) (VBigInts []), 3 + 4))"
    unfolding decode_def by blast
  from inst te ne ie ie' le cnt have 6: "decode ascii_platform (Suc 3) ?be =
      Some (Inr (NBTTag TList (Some [])
        (VList TEnd (replicate (nat 2) (NBTTag TEnd None VNull))), 3 + 5))"
    unfolding decode_def by blast
  from inst tn nn jn ln neg have 7: "decode ascii_platform (Suc (Suc 3)) ?bn =
      Some (Inr (NBTTag TList (Some []) (VList (TagType_of_byte 3) []), 3 + 5))"
    unfolding decode_def by blast
  from d k 1 2 la 3 li 4 ll 5 ie le 6 jn ln 7 show ?thesis
    by blast
qed

theorem decoder_accepts_counterexample:
  "decode ascii_platform 5 [9, 0, 0, 0, 0, 0, 0, 2] =
     Some (Inr (NBTTag TList (Some [])
       (VList TEnd [NBTTag TEnd None VNull, NBTTag TEnd None VNull]), 8)) \<and>
   decode ascii_platform 5 [9, 0, 0, 3, 255, 255, 255, 255] =
     Some (Inr (NBTTag TList (Some []) (VList TInt []), 8)) \<and>
   decode ascii_platform 5 [11, 0, 0, 255, 255, 255, 255] =
     Some (Inr (NBTTag TIntArray (Some []) (VNumbers []), 7)) \<and>
   decode ascii_platform 5 [12, 0, 0, 255, 255, 255, 255] =
     Some (Inr (NBTTag TLongArray (Some []) (VBigInts []), 7))"
  by code_simp

end
